theory Spec2Isabelle
  imports Main "HOL-Library.Sublist" "HOL-Library.Char_ord" "HOL-Library.List_Lexorder"
begin

section \<open>Python string primitives used by the two scrape scripts\<close>

text \<open>
  Python \<open>str\<close> and \<open>bytes\<close> values are modelled as \<open>string\<close> (a list of 8-bit
  characters).  The substring test \<open>old in s\<close> is \<^const>\<open>sublist\<close> and
  \<open>s.startswith(p)\<close> is \<^const>\<open>prefix\<close>, both from the library.
\<close>

text \<open>\<open>s.rstrip(chars)\<close>: drop every trailing character that belongs to \<open>chars\<close>.\<close>

definition rstrip :: "string \<Rightarrow> string \<Rightarrow> string" where
  "rstrip chars s = rev (dropWhile (\<lambda>c. c \<in> set chars) (rev s))"

text \<open>
  \<open>s.replace(old, new)\<close>: every non-overlapping occurrence of \<open>old\<close>, found scanning from
  the left, is replaced.  For an empty \<open>old\<close> Python puts \<open>new\<close> before every character and
  at the end.
\<close>

function replace :: "string \<Rightarrow> string \<Rightarrow> string \<Rightarrow> string" where
  "replace old new s =
     (if old = [] then new @ concat (map (\<lambda>c. c # new) s)
      else case s of
        [] \<Rightarrow> []
      | c # cs \<Rightarrow>
          if prefix old s then new @ replace old new (drop (length old) s)
          else c # replace old new cs)"
  by pat_completeness auto
termination
  by (relation "measure (\<lambda>(old, new, s). length s)") (auto simp: neq_Nil_conv)

declare replace.simps [simp del]

section \<open>Deriving the scrape URL (both scripts, same code)\<close>

text \<open>
  \<^verbatim>\<open>
    if '/announce' in tracker_url:
        scrape_url = tracker_url.replace('/announce', '/scrape')
    else:
        scrape_url = tracker_url.rstrip('/') + '/scrape'
  \<close>
\<close>

definition scrape_url :: "string \<Rightarrow> string" where
  "scrape_url tracker_url =
     (if sublist ''/announce'' tracker_url
      then replace ''/announce'' ''/scrape'' tracker_url
      else rstrip ''/'' tracker_url @ ''/scrape'')"

text \<open>
  The derivation as the specification words it: the last \<open>/announce\<close> path segment (the
  text \<open>/announce\<close> followed by the end of the URL or by another \<open>/\<close>) is replaced by
  \<open>/scrape\<close>; when there is no such segment \<open>/scrape\<close> is appended.  The recursion
  looks in the tail first, so the segment it replaces is the last one.
\<close>

definition announce_segment_here :: "string \<Rightarrow> bool" where
  "announce_segment_here s =
     (prefix ''/announce'' s \<and>
      (case drop (length ''/announce'') s of [] \<Rightarrow> True | c # _ \<Rightarrow> c = CHR ''/''))"

fun spec_replace_last :: "string \<Rightarrow> string option" where
  "spec_replace_last [] = None"
| "spec_replace_last (c # cs) =
     (case spec_replace_last cs of
        Some r \<Rightarrow> Some (c # r)
      | None \<Rightarrow>
          if announce_segment_here (c # cs)
          then Some (''/scrape'' @ drop (length ''/announce'') (c # cs))
          else None)"

definition spec_scrape_url :: "string \<Rightarrow> string" where
  "spec_scrape_url tracker_url =
     (case spec_replace_last tracker_url of
        Some r \<Rightarrow> r
      | None \<Rightarrow> tracker_url @ ''/scrape'')"

text \<open>Joining pieces with a separator, as \<open>sep.join(pieces)\<close> does.\<close>

fun join :: "string \<Rightarrow> string list \<Rightarrow> string" where
  "join sep [] = []"
| "join sep [p] = p"
| "join sep (p # q # ps) = p @ sep @ join sep (q # ps)"


section \<open>Hexadecimal and percent-encoding primitives of the Python library\<close>

datatype py_exception = ValueError | TypeError | AttributeError | KeyError | BencodeDecodeError

definition is_digit :: "char \<Rightarrow> bool" where
  "is_digit c = (CHR ''0'' \<le> c \<and> c \<le> CHR ''9'')"

definition digit_value :: "char \<Rightarrow> nat" where
  "digit_value c = of_char c - of_char CHR ''0''"

definition hex_value :: "char \<Rightarrow> nat option" where
  "hex_value c =
     (if CHR ''0'' \<le> c \<and> c \<le> CHR ''9'' then Some (of_char c - of_char CHR ''0'')
      else if CHR ''a'' \<le> c \<and> c \<le> CHR ''f'' then Some (of_char c - of_char CHR ''a'' + 10)
      else if CHR ''A'' \<le> c \<and> c \<le> CHR ''F'' then Some (of_char c - of_char CHR ''A'' + 10)
      else None)"

definition hex_upper :: "nat \<Rightarrow> char" where
  "hex_upper n = ''0123456789ABCDEF'' ! (n mod 16)"

text \<open>The ASCII whitespace that \<open>bytes.fromhex\<close> skips between byte pairs.\<close>

definition is_space :: "char \<Rightarrow> bool" where
  "is_space c = (c \<in> set [CHR '' '', CHR 0x09, CHR 0x0A, CHR 0x0B, CHR 0x0C, CHR 0x0D])"

text \<open>
  \<open>bytes.fromhex(s)\<close>: two hexadecimal digits per byte, whitespace allowed between the
  pairs, \<open>ValueError\<close> on anything else.
\<close>

fun fromhex :: "string \<Rightarrow> py_exception + string" where
  "fromhex [] = Inr []"
| "fromhex [c] = (if is_space c then Inr [] else Inl ValueError)"
| "fromhex (c # d # rest) =
     (if is_space c then fromhex (d # rest)
      else case (hex_value c, hex_value d) of
        (Some h, Some l) \<Rightarrow>
          (case fromhex rest of
             Inl e \<Rightarrow> Inl e
           | Inr bs \<Rightarrow> Inr (char_of (16 * h + l) # bs))
      | _ \<Rightarrow> Inl ValueError)"

text \<open>
  \<open>urllib.parse.quote(bs, safe)\<close> on bytes: the bytes of \<open>_ALWAYS_SAFE\<close> and of \<open>safe\<close>
  are kept, every other byte becomes \<open>%XX\<close> with upper-case hexadecimal digits.
\<close>

definition always_safe :: string where
  "always_safe =
     ''ABCDEFGHIJKLMNOPQRSTUVWXYZabcdefghijklmnopqrstuvwxyz0123456789_.-~''"

definition quote_byte :: "string \<Rightarrow> char \<Rightarrow> string" where
  "quote_byte safe c =
     (if c \<in> set always_safe \<or> c \<in> set safe then [c]
      else [CHR ''%'', hex_upper (of_char c div 16), hex_upper (of_char c mod 16)])"

definition quote :: "string \<Rightarrow> string \<Rightarrow> string" where
  "quote safe bs = concat (map (quote_byte safe) bs)"

text \<open>\<open>urllib.parse.quote_plus\<close>: as \<^const>\<open>quote\<close>, with a space written as \<open>+\<close>.\<close>

definition quote_plus :: "string \<Rightarrow> string \<Rightarrow> string" where
  "quote_plus safe bs =
     (if CHR '' '' \<in> set bs then replace '' '' ''+'' (quote (safe @ '' '') bs)
      else quote safe bs)"

text \<open>
  The value of a \<open>params\<close> entry handed to \<open>requests.get\<close> is either a \<open>str\<close> or a
  \<open>bytes\<close> object.  A \<open>str\<close> is held here as its UTF-8 bytes, so the
  \<open>v.encode('utf-8')\<close> that the client applies to it changes nothing; after that the
  client runs \<open>urlencode(..., doseq=True)\<close>, which quotes each value with
  \<open>quote_plus(v, safe='')\<close>.  (The client's last pass over the whole URL,
  \<open>requote_uri\<close>, leaves such a value as it is: it holds unreserved characters, \<open>+\<close>
  and escapes of bytes that are not unreserved.)
\<close>

datatype py_param = PyStr string | PyBytes string

fun encode_param_value :: "py_param \<Rightarrow> string" where
  "encode_param_value (PyStr s) = quote_plus [] s"
| "encode_param_value (PyBytes b) = quote_plus [] b"

text \<open>
  Percent-decoding (\<open>urllib.parse.unquote_to_bytes\<close>): \<open>%XY\<close> with two hexadecimal digits
  of either case is one byte, everything else stands for itself.
\<close>

fun percent_decode :: "string \<Rightarrow> string" where
  "percent_decode (c # a # b # rest) =
     (if c = CHR ''%'' then
        (case (hex_value a, hex_value b) of
           (Some h, Some l) \<Rightarrow> char_of (16 * h + l) # percent_decode rest
         | _ \<Rightarrow> c # percent_decode (a # b # rest))
      else c # percent_decode (a # b # rest))"
| "percent_decode (c # cs) = c # percent_decode cs"
| "percent_decode [] = []"

section \<open>What the scripts see of the network and what they print\<close>

datatype http_outcome =
    Response nat string
  | Timeout
  | ConnectionError
  | OtherException

record 'a stats =
  seeders :: 'a
  leechers :: 'a
  downloads :: 'a

text \<open>
  The lines the scripts print.  The decode-failure line of manual-scrape-better.py,
  \<^verbatim>\<open>print(f"Failed to decode bencode: {e}")\<close>, shows the exception that was caught:
  \<open>DecodeFailed\<close> carries it.
\<close>

datatype 'a line =
    Scraping string
  | ResponseLength nat
  | RawResponse string
  | StatsLine 'a 'a 'a
  | CouldNotParse
  | HttpStatus nat
  | ErrorLine
  | HashNotFound
  | NoFilesKey
  | ResponseKeys "string list"
  | DecodeFailed py_exception
  | HtmlHint
  | TimeoutLine
  | ConnectionErrorLine

section \<open>manual-scrape.py\<close>

text \<open>
  \<^verbatim>\<open>
    def hex_to_url_encoded(hex_hash):
        bytes_hash = bytes.fromhex(hex_hash)
        return urllib.parse.quote(bytes_hash, safe='')
  \<close>
\<close>

definition hex_to_url_encoded :: "string \<Rightarrow> py_exception + string" where
  "hex_to_url_encoded hex_hash =
     (case fromhex hex_hash of
        Inl e \<Rightarrow> Inl e
      | Inr bytes_hash \<Rightarrow> Inr (quote [] bytes_hash))"

text \<open>
  \<open>re.search(key + b'i(\d+)e', content)\<close>, for the three patterns of the script.  At one
  start position the pattern matches when the text there is \<open>key\<close>, \<open>i\<close>, a non-empty run
  of ASCII digits and \<open>e\<close>.  \<open>\d+\<close> is greedy, and giving digits back cannot help, because
  the character after a shorter run is a digit and not \<open>e\<close>; so the run is the longest one.
  The search returns the match at the leftmost start position; the result is group 1.
\<close>

definition match_counter_here :: "string \<Rightarrow> string \<Rightarrow> string option" where
  "match_counter_here key s =
     (if prefix (key @ ''i'') s then
        (let rest = drop (length key + 1) s;
             ds = takeWhile is_digit rest
         in if ds \<noteq> [] \<and> prefix ''e'' (dropWhile is_digit rest) then Some ds else None)
      else None)"

fun re_search_counter :: "string \<Rightarrow> string \<Rightarrow> string option" where
  "re_search_counter key [] = match_counter_here key []"
| "re_search_counter key (c # cs) =
     (case match_counter_here key (c # cs) of
        Some g \<Rightarrow> Some g
      | None \<Rightarrow> re_search_counter key cs)"

text \<open>
  \<open>int(group)\<close> on a run of ASCII digits.  The interpreter refuses a run longer than its
  \<open>int_max_str_digits\<close> setting with \<open>ValueError\<close>; the setting 0 switches the limit off.
\<close>

definition decimal_value :: "string \<Rightarrow> nat" where
  "decimal_value ds = foldl (\<lambda>a c. 10 * a + digit_value c) 0 ds"

definition py_int :: "nat \<Rightarrow> string \<Rightarrow> py_exception + int" where
  "py_int int_max_str_digits ds =
     (if int_max_str_digits \<noteq> 0 \<and> length ds > int_max_str_digits then Inl ValueError
      else Inr (int (decimal_value ds)))"

definition int_or_zero :: "nat \<Rightarrow> string option \<Rightarrow> py_exception + int" where
  "int_or_zero int_max_str_digits m =
     (case m of None \<Rightarrow> Inr 0 | Some g \<Rightarrow> py_int int_max_str_digits g)"

text \<open>
  The body of the \<open>status_code == 200\<close> branch: the three searches, then the three
  conversions in the order of the source.  An exception leaves through \<open>Inl\<close>.
\<close>

definition parse_counters ::
  "nat \<Rightarrow> string \<Rightarrow> py_exception + (int stats option \<times> int line list)" where
  "parse_counters int_max_str_digits content =
     (let complete_match = re_search_counter ''8:complete'' content;
          incomplete_match = re_search_counter ''10:incomplete'' content;
          downloaded_match = re_search_counter ''10:downloaded'' content
      in if complete_match \<noteq> None \<or> incomplete_match \<noteq> None then
           (case int_or_zero int_max_str_digits complete_match of
              Inl e \<Rightarrow> Inl e
            | Inr s \<Rightarrow>
           (case int_or_zero int_max_str_digits incomplete_match of
              Inl e \<Rightarrow> Inl e
            | Inr l \<Rightarrow>
           (case int_or_zero int_max_str_digits downloaded_match of
              Inl e \<Rightarrow> Inl e
            | Inr d \<Rightarrow>
                Inr (Some \<lparr>seeders = s, leechers = l, downloads = d\<rparr>, [StatsLine s l d]))))
         else Inr (None, [CouldNotParse]))"

text \<open>
  \<open>scrape_http_tracker(tracker_url, info_hash)\<close> of manual-scrape.py.  The HTTP client is
  the parameter \<open>requests_get\<close>.  \<open>hex_to_url_encoded\<close> runs before the \<open>try\<close>, so its
  \<open>ValueError\<close> leaves the function; every exception inside the \<open>try\<close> prints a line
  and falls through to \<open>return None\<close>.  The result is the returned value (or the exception
  raised) and the lines printed.
\<close>

definition scrape_http_tracker ::
  "nat \<Rightarrow> (string \<Rightarrow> py_param \<Rightarrow> http_outcome) \<Rightarrow> string \<Rightarrow> string
     \<Rightarrow> (py_exception + int stats option) \<times> int line list" where
  "scrape_http_tracker int_max_str_digits requests_get tracker_url info_hash =
     (let scrape_url = scrape_url tracker_url
      in case hex_to_url_encoded info_hash of
        Inl e \<Rightarrow> (Inl e, [])
      | Inr encoded_hash \<Rightarrow>
          (case requests_get scrape_url (PyStr encoded_hash) of
             Response status_code content \<Rightarrow>
               if status_code = 200 then
                 (case parse_counters int_max_str_digits content of
                    Inl e \<Rightarrow>
                      (Inr None,
                       [Scraping scrape_url, ResponseLength (length content),
                        RawResponse (take 200 content), ErrorLine])
                  | Inr (result, printed) \<Rightarrow>
                      (Inr result,
                       [Scraping scrape_url, ResponseLength (length content),
                        RawResponse (take 200 content)] @ printed))
               else (Inr None, [Scraping scrape_url, HttpStatus status_code])
           | _ \<Rightarrow> (Inr None, [Scraping scrape_url, ErrorLine])))"


section \<open>Decoded bencode values\<close>

text \<open>
  The four variants of the specification's \<open>BencodeValue\<close>; they are also the four kinds
  of Python object (\<open>int\<close>, \<open>bytes\<close>, \<open>list\<close>, \<open>dict\<close> with \<open>bytes\<close> keys) that
  \<open>bencodepy.decode\<close> hands to manual-scrape-better.py.  A dictionary is the list of its
  entries in iteration order; a key is looked up with \<^const>\<open>map_of\<close>.
\<close>

datatype BencodeValue =
    Integer int
  | ByteString string
  | List "BencodeValue list"
  | Dictionary "(string \<times> BencodeValue) list"

section \<open>manual-scrape-better.py\<close>

text \<open>\<open>key in obj\<close> for a \<open>bytes\<close> key, by the kind of \<open>obj\<close>.\<close>

fun py_in :: "string \<Rightarrow> BencodeValue \<Rightarrow> py_exception + bool" where
  "py_in k (Dictionary es) = Inr (map_of es k \<noteq> None)"
| "py_in k (List vs) = Inr (ByteString k \<in> set vs)"
| "py_in k (ByteString b) = Inr (sublist k b)"
| "py_in k (Integer i) = Inl TypeError"

text \<open>\<open>obj[key]\<close> for a \<open>bytes\<close> key.\<close>

fun py_getitem :: "BencodeValue \<Rightarrow> string \<Rightarrow> py_exception + BencodeValue" where
  "py_getitem (Dictionary es) k =
     (case map_of es k of None \<Rightarrow> Inl KeyError | Some v \<Rightarrow> Inr v)"
| "py_getitem v k = Inl TypeError"

text \<open>\<open>obj.get(key, default)\<close> and \<open>list(obj.keys())\<close>: only a \<open>dict\<close> has them.\<close>

fun py_get :: "BencodeValue \<Rightarrow> string \<Rightarrow> BencodeValue \<Rightarrow> py_exception + BencodeValue" where
  "py_get (Dictionary es) k dflt =
     (case map_of es k of None \<Rightarrow> Inr dflt | Some v \<Rightarrow> Inr v)"
| "py_get v k dflt = Inl AttributeError"

fun py_keys :: "BencodeValue \<Rightarrow> py_exception + string list" where
  "py_keys (Dictionary es) = Inr (map fst es)"
| "py_keys v = Inl AttributeError"

text \<open>\<open>bytes.lower()\<close>: the ASCII capitals become small letters.\<close>

definition py_lower :: "string \<Rightarrow> string" where
  "py_lower b =
     map (\<lambda>c. if CHR ''A'' \<le> c \<and> c \<le> CHR ''Z'' then char_of (of_char c + (32::nat)) else c) b"

text \<open>
  Lines 45 to 59 of the script, on the decoded \<open>data\<close>:
  \<^verbatim>\<open>
    if b'files' in data:
        files = data[b'files']
        if info_hash_bytes in files:
            stats = files[info_hash_bytes]
            seeders = stats.get(b'complete', 0)
            leechers = stats.get(b'incomplete', 0)
            downloads = stats.get(b'downloaded', 0)
            print(...)
            return {'seeders': seeders, 'leechers': leechers, 'downloads': downloads}
        else:
            print("Info hash not found in response")
    else:
        print("No 'files' key in response")
        print(f"Response keys: {list(data.keys())}")
  \<close>
  The result is what the block returns (\<open>None\<close> when it falls through) or the exception
  that leaves it, with the lines printed up to there.
\<close>

definition read_stats ::
  "string \<Rightarrow> BencodeValue
     \<Rightarrow> (py_exception + BencodeValue stats option) \<times> BencodeValue line list" where
  "read_stats info_hash_bytes data =
     (case py_in ''files'' data of
        Inl e \<Rightarrow> (Inl e, [])
      | Inr False \<Rightarrow>
          (case py_keys data of
             Inl e \<Rightarrow> (Inl e, [NoFilesKey])
           | Inr ks \<Rightarrow> (Inr None, [NoFilesKey, ResponseKeys ks]))
      | Inr True \<Rightarrow>
          (case py_getitem data ''files'' of
             Inl e \<Rightarrow> (Inl e, [])
           | Inr files \<Rightarrow>
          (case py_in info_hash_bytes files of
             Inl e \<Rightarrow> (Inl e, [])
           | Inr False \<Rightarrow> (Inr None, [HashNotFound])
           | Inr True \<Rightarrow>
          (case py_getitem files info_hash_bytes of
             Inl e \<Rightarrow> (Inl e, [])
           | Inr stats \<Rightarrow>
          (case py_get stats ''complete'' (Integer 0) of
             Inl e \<Rightarrow> (Inl e, [])
           | Inr s \<Rightarrow>
          (case py_get stats ''incomplete'' (Integer 0) of
             Inl e \<Rightarrow> (Inl e, [])
           | Inr l \<Rightarrow>
          (case py_get stats ''downloaded'' (Integer 0) of
             Inl e \<Rightarrow> (Inl e, [])
           | Inr d \<Rightarrow>
               (Inr (Some \<lparr>seeders = s, leechers = l, downloads = d\<rparr>),
                [StatsLine s l d]))))))))"

text \<open>
  The inner \<open>try\<close>: \<open>bencodepy.decode\<close> (a parameter, the library is not part of the
  repository) and then the block above.
\<close>

definition decode_and_read ::
  "(string \<Rightarrow> py_exception + BencodeValue) \<Rightarrow> string \<Rightarrow> string
     \<Rightarrow> (py_exception + BencodeValue stats option) \<times> BencodeValue line list" where
  "decode_and_read bencodepy_decode info_hash_bytes content =
     (case bencodepy_decode content of
        Inl e \<Rightarrow> (Inl e, [])
      | Inr data \<Rightarrow> read_stats info_hash_bytes data)"

text \<open>
  \<open>scrape_http_tracker(tracker_url, info_hash_hex)\<close> of manual-scrape-better.py.
  \<open>bytes.fromhex\<close> runs before the outer \<open>try\<close>.  An exception of the inner \<open>try\<close>
  prints the decode-failure line (and the HTML hint), and like every other failure the
  function then reaches its last line, \<open>return None\<close>.
\<close>

definition scrape_http_tracker_better ::
  "(string \<Rightarrow> py_exception + BencodeValue) \<Rightarrow> (string \<Rightarrow> py_param \<Rightarrow> http_outcome)
     \<Rightarrow> string \<Rightarrow> string
     \<Rightarrow> (py_exception + BencodeValue stats option) \<times> BencodeValue line list" where
  "scrape_http_tracker_better bencodepy_decode requests_get tracker_url info_hash_hex =
     (case fromhex info_hash_hex of
        Inl e \<Rightarrow> (Inl e, [])
      | Inr info_hash_bytes \<Rightarrow>
          (let scrape_url = scrape_url tracker_url
           in case requests_get scrape_url (PyBytes info_hash_bytes) of
             Response status_code content \<Rightarrow>
               if status_code = 200 then
                 (case decode_and_read bencodepy_decode info_hash_bytes content of
                    (Inl e, printed) \<Rightarrow>
                      (Inr None,
                       [Scraping scrape_url] @ printed @ [DecodeFailed e] @
                       (if sublist ''<html'' (take 100 (py_lower content))
                        then [HtmlHint] else []))
                  | (Inr result, printed) \<Rightarrow>
                      (Inr result, [Scraping scrape_url] @ printed))
               else (Inr None, [Scraping scrape_url, HttpStatus status_code])
           | Timeout \<Rightarrow> (Inr None, [Scraping scrape_url, TimeoutLine])
           | ConnectionError \<Rightarrow> (Inr None, [Scraping scrape_url, ConnectionErrorLine])
           | OtherException \<Rightarrow> (Inr None, [Scraping scrape_url, ErrorLine])))"

text \<open>The value each script puts into the \<open>info_hash\<close> query parameter.\<close>

definition info_hash_param_manual :: "string \<Rightarrow> py_exception + string" where
  "info_hash_param_manual info_hash =
     (case hex_to_url_encoded info_hash of
        Inl e \<Rightarrow> Inl e
      | Inr encoded_hash \<Rightarrow> Inr (encode_param_value (PyStr encoded_hash)))"

definition info_hash_param_better :: "string \<Rightarrow> py_exception + string" where
  "info_hash_param_better info_hash_hex =
     (case fromhex info_hash_hex of
        Inl e \<Rightarrow> Inl e
      | Inr info_hash_bytes \<Rightarrow> Inr (encode_param_value (PyBytes info_hash_bytes)))"


section \<open>The bencode encoder and decoder of the specification\<close>

text \<open>
  The scripts call the library \<open>bencodepy\<close>; the repository holds no decoder of its own.
  The definitions of this section are written from the specification
  (sections 3, 4.1, 4.2, 4.3 and 7).
\<close>

subsection \<open>Well-formed trees\<close>

text \<open>
  Modelled from the spec: the well-formed trees of sections 3 and 8, whose type is missing
  from the source: in every dictionary the keys are unique.
\<close>

fun well_formed :: "BencodeValue \<Rightarrow> bool" where
  "well_formed (Integer i) = True"
| "well_formed (ByteString b) = True"
| "well_formed (List vs) = list_all well_formed vs"
| "well_formed (Dictionary es) =
     (distinct (map fst es) \<and> list_all (\<lambda>e. well_formed (snd e)) es)"

text \<open>
  Modelled from the spec: the iteration order of the \<open>Dictionary\<close> variant (section 3),
  the byte-lexicographic order of the keys.  A tree is in key order when the entries of
  every dictionary are listed with strictly increasing keys; \<open>in_key_order\<close> lists the
  entries of every dictionary of a tree by key and changes nothing else, so that of a
  well-formed tree it is the same tree, each mapping listed in its iteration order.
\<close>

fun key_ordered :: "BencodeValue \<Rightarrow> bool" where
  "key_ordered (Integer i) = True"
| "key_ordered (ByteString b) = True"
| "key_ordered (List vs) = list_all key_ordered vs"
| "key_ordered (Dictionary es) =
     (sorted_wrt (<) (map fst es) \<and> list_all (\<lambda>e. key_ordered (snd e)) es)"

fun in_key_order :: "BencodeValue \<Rightarrow> BencodeValue" where
  "in_key_order (Integer i) = Integer i"
| "in_key_order (ByteString b) = ByteString b"
| "in_key_order (List vs) = List (map in_key_order vs)"
| "in_key_order (Dictionary es) =
     Dictionary (sort_key fst (map (\<lambda>e. (fst e, in_key_order (snd e))) es))"

text \<open>Modelled from the spec: the nesting depth that section 4.1 bounds: 0 for an
  integer or a byte string, one more than the deepest member for a list or a
  dictionary.\<close>

fun depth :: "BencodeValue \<Rightarrow> nat" where
  "depth (Integer i) = 0"
| "depth (ByteString b) = 0"
| "depth (List vs) = Suc (fold max (map depth vs) 0)"
| "depth (Dictionary es) = Suc (fold max (map (\<lambda>e. depth (snd e)) es) 0)"

subsection \<open>Encoder\<close>

text \<open>
  Modelled from the spec: the decimal numbers of section 4.2, missing from the source: no
  leading zeros, no positive sign, \<open>0\<close> for zero and a \<open>-\<close> before a negative number.
\<close>

definition digit_char :: "nat \<Rightarrow> char" where
  "digit_char d = char_of (of_char CHR ''0'' + d)"

function show_nat :: "nat \<Rightarrow> string" where
  "show_nat n = (if n < 10 then [digit_char n] else show_nat (n div 10) @ [digit_char (n mod 10)])"
  by pat_completeness auto
termination
  by (relation "measure id") auto

declare show_nat.simps [simp del]

definition show_int :: "int \<Rightarrow> string" where
  "show_int i = (if i < 0 then CHR ''-'' # show_nat (nat (- i)) else show_nat (nat i))"

text \<open>
  Modelled from the spec: \<open>encode\<close> (section 4.2), missing from the source.  Integers are
  \<open>i<decimal>e\<close>, byte strings \<open><len>:<bytes>\<close>, lists and dictionaries wrap their
  members between \<open>l\<close> or \<open>d\<close> and \<open>e\<close>; dictionary members are emitted in key order
  whatever order the entries are held in.
\<close>

fun encode :: "BencodeValue \<Rightarrow> string" where
  "encode (Integer i) = CHR ''i'' # show_int i @ ''e''"
| "encode (ByteString b) = show_nat (length b) @ CHR '':'' # b"
| "encode (List vs) = CHR ''l'' # concat (map encode vs) @ ''e''"
| "encode (Dictionary es) =
     CHR ''d'' #
     concat (map (\<lambda>e. encode (ByteString (fst e)) @ encode (snd e)) (sort_key fst es)) @ ''e''"

subsection \<open>Decoder\<close>

text \<open>
  Modelled from the spec: the error taxonomy of section 7, missing from the source.
  Every decode failure carries the byte offset at which it was detected.
\<close>

datatype DecodeError =
    TruncatedInputError nat
  | SyntaxError nat
  | StructureError nat

text \<open>
  Modelled from the spec: the configuration of the decoder (section 4.1), missing from the
  source: the maximum nesting depth, 64 unless the caller sets another.
\<close>

record decoder_config =
  max_depth :: nat

definition default_config :: decoder_config where
  "default_config = \<lparr>max_depth = 64\<rparr>"

text \<open>
  Modelled from the spec: the integer production \<open>i<digits>e\<close> of section 4.1.  \<open>s\<close> is
  the input after the \<open>i\<close>, which stood at offset \<open>pos\<close>.  An optional \<open>-\<close>, one or more
  digits, no leading zero except for \<open>0\<close> itself, no negative zero, then \<open>e\<close>.  The
  result is the value and the number of bytes of \<open>s\<close> that were read.
\<close>

definition read_int :: "nat \<Rightarrow> string \<Rightarrow> DecodeError + (int \<times> nat)" where
  "read_int pos s =
     (let neg = prefix ''-'' s;
          sign_len = (if neg then 1 else 0);
          body = drop sign_len s;
          ds = takeWhile is_digit body;
          after = dropWhile is_digit body;
          here = pos + 1 + sign_len
      in if ds = [] then
           (if after = [] then Inl (TruncatedInputError here) else Inl (SyntaxError here))
         else if length ds > 1 \<and> hd ds = CHR ''0'' then Inl (SyntaxError here)
         else if neg \<and> ds = ''0'' then Inl (SyntaxError here)
         else case after of
           [] \<Rightarrow> Inl (TruncatedInputError (here + length ds))
         | c # _ \<Rightarrow>
             if c = CHR ''e''
             then Inr (if neg then - int (decimal_value ds) else int (decimal_value ds),
                       sign_len + length ds + 1)
             else Inl (SyntaxError (here + length ds)))"

text \<open>
  Modelled from the spec: the byte-string production \<open><len>:<bytes>\<close> of section 4.1.
  \<open>c\<close> is the first digit of the length, at offset \<open>pos\<close>, and \<open>cs\<close> the input after
  it.  The length has no leading zero except for \<open>0\<close> itself; a length that reaches past
  the end of the buffer is a \<open>TruncatedInputError\<close>.  The result is the payload and the
  number of bytes of \<open>cs\<close> that were read.
\<close>

definition read_bytes :: "nat \<Rightarrow> char \<Rightarrow> string \<Rightarrow> DecodeError + (string \<times> nat)" where
  "read_bytes pos c cs =
     (let more_digits = takeWhile is_digit cs;
          after = dropWhile is_digit cs
      in if more_digits \<noteq> [] \<and> c = CHR ''0'' then Inl (SyntaxError pos)
         else case after of
           [] \<Rightarrow> Inl (TruncatedInputError (pos + 1 + length more_digits))
         | sep # payload \<Rightarrow>
             if sep \<noteq> CHR '':'' then Inl (SyntaxError (pos + 1 + length more_digits))
             else
               (let n = decimal_value (c # more_digits)
                in if length payload < n then Inl (TruncatedInputError (pos + 1 + length cs))
                   else Inr (take n payload, length more_digits + 1 + n)))"

text \<open>
  Modelled from the spec: the decoder of section 4.1, missing from the source, with the
  explicit work stack of the design notes in place of native recursion.  A frame is a
  list or a dictionary that has been opened and not yet closed: a list frame holds the
  items read so far; a dictionary frame holds the entries read so far, in key order, and
  the key that waits for its value, if any.
\<close>

datatype frame =
    ListFrame "BencodeValue list"
  | DictFrame "(string \<times> BencodeValue) list" "string option"

datatype step_result =
    Failed DecodeError
  | Finished BencodeValue nat
  | Continue "frame list" nat

text \<open>
  Modelled from the spec: the state of a dictionary production (section 4.1), byte-string
  key and value in turn.  \<open>expects_key\<close>: a dictionary is open on top of the stack and
  waits for a key; \<open>has_key\<close>: that dictionary has the key already; \<open>set_key\<close>: the key
  now waits for its value.
\<close>

fun expects_key :: "frame list \<Rightarrow> bool" where
  "expects_key (DictFrame es None # st) = True"
| "expects_key st = False"

fun has_key :: "string \<Rightarrow> frame list \<Rightarrow> bool" where
  "has_key k (DictFrame es p # st) = (k \<in> set (map fst es))"
| "has_key k st = False"

fun set_key :: "string \<Rightarrow> frame list \<Rightarrow> frame list" where
  "set_key k (DictFrame es p # st) = DictFrame es (Some k) # st"
| "set_key k st = st"

text \<open>
  Modelled from the spec: what the decoder of section 4.1 does with a complete value.  It
  goes to the frame on top of the stack, a dictionary keeping its entries in key order
  whatever order they arrive in; with an empty stack it is the result.  \<open>n\<close> is the number
  of bytes read after the lead byte at offset \<open>pos\<close>.
\<close>

fun deliver :: "BencodeValue \<Rightarrow> frame list \<Rightarrow> nat \<Rightarrow> nat \<Rightarrow> step_result" where
  "deliver v [] pos n = Finished v n"
| "deliver v (ListFrame items # st) pos n = Continue (ListFrame (items @ [v]) # st) n"
| "deliver v (DictFrame es (Some k) # st) pos n =
     Continue (DictFrame (insort_key fst (k, v) es) None # st) n"
| "deliver v (DictFrame es None # st) pos n = Failed (SyntaxError pos)"

text \<open>
  Modelled from the spec: one step of the decoder of section 4.1, which reads one token.
  The lead byte \<open>c\<close> at offset \<open>pos\<close> selects the production: \<open>e\<close> closes the open list
  or dictionary, \<open>i\<close> is an integer, a digit a byte string, \<open>l\<close> and \<open>d\<close> open a list or
  a dictionary unless the stack already holds \<open>max_depth\<close> frames (then
  \<open>StructureError\<close>), anything else is malformed.  Where a dictionary waits for a key,
  only a byte string or the closing \<open>e\<close> may follow, and a key that the dictionary
  already has is refused, with \<open>SyntaxError\<close> as section 4.1 has it (section 7 files the
  duplicate key under \<open>StructureError\<close>).
\<close>

definition step :: "decoder_config \<Rightarrow> frame list \<Rightarrow> nat \<Rightarrow> char \<Rightarrow> string \<Rightarrow> step_result" where
  "step cfg st pos c cs =
     (if c = CHR ''e'' then
        (case st of
           ListFrame items # st' \<Rightarrow> deliver (List items) st' pos 0
         | DictFrame es None # st' \<Rightarrow> deliver (Dictionary es) st' pos 0
         | _ \<Rightarrow> Failed (SyntaxError pos))
      else if expects_key st then
        (if is_digit c then
           (case read_bytes pos c cs of
              Inl e \<Rightarrow> Failed e
            | Inr (k, n) \<Rightarrow>
                if has_key k st then Failed (SyntaxError pos) else Continue (set_key k st) n)
         else Failed (SyntaxError pos))
      else if c = CHR ''i'' then
        (case read_int pos cs of
           Inl e \<Rightarrow> Failed e
         | Inr (i, n) \<Rightarrow> deliver (Integer i) st pos n)
      else if is_digit c then
        (case read_bytes pos c cs of
           Inl e \<Rightarrow> Failed e
         | Inr (b, n) \<Rightarrow> deliver (ByteString b) st pos n)
      else if c = CHR ''l'' then
        (if length st < max_depth cfg then Continue (ListFrame [] # st) 0
         else Failed (StructureError pos))
      else if c = CHR ''d'' then
        (if length st < max_depth cfg then Continue (DictFrame [] None # st) 0
         else Failed (StructureError pos))
      else Failed (SyntaxError pos))"

text \<open>
  Modelled from the spec: the loop of the decoder of section 4.1, which steps until a value
  is complete on an empty stack or a step fails, and stops at the first error.  The end
  of the buffer before that is a \<open>TruncatedInputError\<close>.  The result is the value and
  the offset after it.
\<close>

fun run :: "decoder_config \<Rightarrow> frame list \<Rightarrow> nat \<Rightarrow> string \<Rightarrow> DecodeError + (BencodeValue \<times> nat)" where
  "run cfg st pos [] = Inl (TruncatedInputError pos)"
| "run cfg st pos (c # cs) =
     (case step cfg st pos c cs of
        Failed e \<Rightarrow> Inl e
      | Finished v n \<Rightarrow> Inr (v, pos + 1 + n)
      | Continue st' n \<Rightarrow> run cfg st' (pos + 1 + n) (drop n cs))"

text \<open>
  Modelled from the spec: \<open>decode\<close> and \<open>decode_all\<close> of section 4.1, missing from the
  source.  \<open>decode_all\<close> fails when bytes remain after the first complete value; the
  specification names no error for that, here it is a \<open>SyntaxError\<close> at the offset of
  the first such byte.
\<close>

definition decode :: "decoder_config \<Rightarrow> string \<Rightarrow> DecodeError + (BencodeValue \<times> nat)" where
  "decode cfg s = run cfg [] 0 s"

definition decode_all :: "decoder_config \<Rightarrow> string \<Rightarrow> DecodeError + BencodeValue" where
  "decode_all cfg s =
     (case decode cfg s of
        Inl e \<Rightarrow> Inl e
      | Inr (v, n) \<Rightarrow> if n < length s then Inl (SyntaxError n) else Inr v)"

subsection \<open>Value accessors\<close>

text \<open>
  Modelled from the spec: the typed accessors of section 4.3, missing from the source.
  Look up \<open>files\<close>, then the queried identifier, then the three counters; an absent
  counter is zero, and every other lookup that fails, by a missing key or by a variant
  other than the expected one, is \<open>FieldMissing\<close>.
\<close>

datatype accessor_error = FieldMissing

fun dict_get :: "BencodeValue \<Rightarrow> string \<Rightarrow> accessor_error + BencodeValue" where
  "dict_get (Dictionary es) k =
     (case map_of es k of None \<Rightarrow> Inl FieldMissing | Some v \<Rightarrow> Inr v)"
| "dict_get v k = Inl FieldMissing"

fun counter_or_zero :: "BencodeValue \<Rightarrow> string \<Rightarrow> accessor_error + int" where
  "counter_or_zero (Dictionary es) k =
     (case map_of es k of
        None \<Rightarrow> Inr 0
      | Some (Integer i) \<Rightarrow> Inr i
      | Some _ \<Rightarrow> Inl FieldMissing)"
| "counter_or_zero v k = Inl FieldMissing"

definition scrape_counters :: "BencodeValue \<Rightarrow> string \<Rightarrow> accessor_error + int stats" where
  "scrape_counters tree identifier =
     (case dict_get tree ''files'' of
        Inl e \<Rightarrow> Inl e
      | Inr files \<Rightarrow>
     (case dict_get files identifier of
        Inl e \<Rightarrow> Inl e
      | Inr entry \<Rightarrow>
     (case counter_or_zero entry ''complete'' of
        Inl e \<Rightarrow> Inl e
      | Inr s \<Rightarrow>
     (case counter_or_zero entry ''incomplete'' of
        Inl e \<Rightarrow> Inl e
      | Inr l \<Rightarrow>
     (case counter_or_zero entry ''downloaded'' of
        Inl e \<Rightarrow> Inl e
      | Inr d \<Rightarrow> Inr \<lparr>seeders = s, leechers = l, downloads = d\<rparr>)))))"

section \<open>Concrete inputs used below\<close>

text \<open>A tracker that answers every request with status 200 and the given body.\<close>

definition tracker_replies :: "string \<Rightarrow> string \<Rightarrow> py_param \<Rightarrow> http_outcome" where
  "tracker_replies content url param = Response 200 content"

text \<open>The specification's decoder in the place of \<open>bencodepy.decode\<close>: a decode error is
  the library's exception.\<close>

definition decode_or_raise :: "string \<Rightarrow> py_exception + BencodeValue" where
  "decode_or_raise content =
     (case decode_all default_config content of
        Inl e \<Rightarrow> Inl BencodeDecodeError
      | Inr v \<Rightarrow> Inr v)"

text \<open>The offsets at which \<open>lit\<close> occurs in \<open>s\<close>.\<close>

definition occurrences :: "string \<Rightarrow> string \<Rightarrow> nat list" where
  "occurrences lit s = filter (\<lambda>i. prefix lit (drop i s)) [0..<Suc (length s)]"

text \<open>
  A scrape response for the identifier of twenty bytes \<open>A\<close> (the info hash
  \<open>4141...41\<close>).  The entry of the identifier has one field, \<open>name\<close>, whose value is the
  byte string \<open>8:completei5e\<close>; it has no field \<open>complete\<close>.
\<close>

definition hazard_hash :: string where
  "hazard_hash = ''4141414141414141414141414141414141414141''"

definition hazard_identifier :: string where
  "hazard_identifier = ''AAAAAAAAAAAAAAAAAAAA''"

definition hazard_tree :: BencodeValue where
  "hazard_tree =
     Dictionary [(''files'',
       Dictionary [(hazard_identifier,
         Dictionary [(''name'', ByteString ''8:completei5e'')])])]"

definition hazard_response :: string where
  "hazard_response = ''d5:filesd20:AAAAAAAAAAAAAAAAAAAAd4:name13:8:completei5eeee''"

text \<open>The info hash that both scripts query.\<close>

definition script_info_hash :: string where
  "script_info_hash = ''ba0e267579fa62981795dcc059fb61e1af5ca429''"

text \<open>The specification's example of a scrape response, for the same identifier.\<close>

definition example_response :: string where
  "example_response =
     ''d5:filesd20:AAAAAAAAAAAAAAAAAAAAd8:completei5e10:downloadedi100e10:incompletei2eeee''"

section \<open>Notions used in the statements about manual-scrape-better.py\<close>

text \<open>
  The entry of the queried identifier, when every lookup step succeeds: the decoded
  response is a dictionary, its \<open>files\<close> value is a dictionary, and the value of the
  identifier in it is a dictionary.
\<close>

definition stats_entry :: "string \<Rightarrow> BencodeValue \<Rightarrow> (string \<times> BencodeValue) list option" where
  "stats_entry identifier data =
     (case data of
        Dictionary root \<Rightarrow>
          (case map_of root ''files'' of
             Some (Dictionary files) \<Rightarrow>
               (case map_of files identifier of
                  Some (Dictionary entry) \<Rightarrow> Some entry
                | _ \<Rightarrow> None)
           | _ \<Rightarrow> None)
      | _ \<Rightarrow> None)"

text \<open>The value of a field of the entry, or the integer zero when the field is absent.\<close>

definition field_or_zero :: "(string \<times> BencodeValue) list \<Rightarrow> string \<Rightarrow> BencodeValue" where
  "field_or_zero entry k = (case map_of entry k of None \<Rightarrow> Integer 0 | Some v \<Rightarrow> v)"

text \<open>
  The HTML hint that follows the decode-failure line: printed when \<open><html\<close> occurs in
  the first 100 bytes of the response, capitals read as small letters.
\<close>

definition html_hint :: "string \<Rightarrow> BencodeValue line list" where
  "html_hint content =
     (if sublist ''<html'' (take 100 (py_lower content)) then [HtmlHint] else [])"

section \<open>Notions used in the statements about the decoder\<close>

text \<open>
  What the loop does with the result of a step: \<open>pos\<close> is the offset after the lead
  byte of the step and \<open>cs\<close> the input after it.
\<close>

definition finish ::
  "decoder_config \<Rightarrow> step_result \<Rightarrow> nat \<Rightarrow> string \<Rightarrow> DecodeError + (BencodeValue \<times> nat)" where
  "finish cfg r pos cs =
     (case r of
        Failed e \<Rightarrow> Inl e
      | Finished v n \<Rightarrow> Inr (v, pos + n)
      | Continue st n \<Rightarrow> run cfg st (pos + n) (drop n cs))"

text \<open>The encoding of one dictionary entry: the key as a byte string, then the value.\<close>

abbreviation (input) encode_entry :: "string \<times> BencodeValue \<Rightarrow> string" where
  "encode_entry e \<equiv> encode (ByteString (fst e)) @ encode (snd e)"

text \<open>\<open>n + 1\<close> lists, each the only item of the one around it; the encoding is
  \<open>n + 1\<close> times \<open>l\<close> followed by \<open>n + 1\<close> times \<open>e\<close>.\<close>

fun nested_lists :: "nat \<Rightarrow> BencodeValue" where
  "nested_lists 0 = List []"
| "nested_lists (Suc n) = List [nested_lists n]"

text \<open>The dictionary of the specification's decoding example \<open>d3:bar4:spam3:fooi42ee\<close>.\<close>

definition spec_example_tree :: BencodeValue where
  "spec_example_tree = Dictionary [(''bar'', ByteString ''spam''), (''foo'', Integer 42)]"

text \<open>
  A dictionary that lists its two keys out of key order, the second one with 65 lists
  nested in one another as its value.
\<close>

definition unsorted_deep_tree :: BencodeValue where
  "unsorted_deep_tree = Dictionary [(''b'', Integer 1), (''a'', nested_lists 64)]"

text \<open>
  Modelled from the spec: the grammar of section 4.1 as a producer writes it, whether it
  sorts the keys or not: the document of a tree, the pairs of every dictionary written in
  the order in which the tree lists them.  The documents of the trees with unique keys are
  the inputs that the grammar and the policy on duplicated keys admit, and
  \<^const>\<open>encode\<close> writes the document of the tree in key order.
\<close>

fun document :: "BencodeValue \<Rightarrow> string" where
  "document (Integer i) = CHR ''i'' # show_int i @ ''e''"
| "document (ByteString b) = show_nat (length b) @ CHR '':'' # b"
| "document (List vs) = CHR ''l'' # concat (map document vs) @ ''e''"
| "document (Dictionary es) =
     CHR ''d'' #
     concat (map (\<lambda>e. document (ByteString (fst e)) @ document (snd e)) es) @ ''e''"

abbreviation (input) document_entry :: "string \<times> BencodeValue \<Rightarrow> string" where
  "document_entry e \<equiv> document (ByteString (fst e)) @ document (snd e)"

abbreviation (input) entry_in_key_order :: "string \<times> BencodeValue \<Rightarrow> string \<times> BencodeValue" where
  "entry_in_key_order e \<equiv> (fst e, in_key_order (snd e))"

text \<open>The two bytes that open a list or a dictionary.\<close>

definition opener :: "char \<Rightarrow> bool" where
  "opener c = (c = CHR ''l'' \<or> c = CHR ''d'')"

text \<open>
  Modelled from the spec: the memory of sections 5 and 8 that the decoder uses, which is
  what its work stack holds.  A value counts one unit for itself and one for every
  character of a decimal integer, every byte of a byte string, every member of a list and
  every pair of a dictionary with its key; a frame counts one unit for itself and what it
  has collected, with the key that waits for its value.
\<close>

fun value_size :: "BencodeValue \<Rightarrow> nat" where
  "value_size (Integer i) = 1 + length (show_int i)"
| "value_size (ByteString b) = 1 + length b"
| "value_size (List vs) = 1 + sum_list (map value_size vs)"
| "value_size (Dictionary es) =
     1 + sum_list (map (\<lambda>e. 1 + length (fst e) + value_size (snd e)) es)"

abbreviation (input) entry_size :: "string \<times> BencodeValue \<Rightarrow> nat" where
  "entry_size e \<equiv> 1 + length (fst e) + value_size (snd e)"

fun frame_size :: "frame \<Rightarrow> nat" where
  "frame_size (ListFrame items) = 1 + sum_list (map value_size items)"
| "frame_size (DictFrame es p) =
     1 + sum_list (map (\<lambda>e. 1 + length (fst e) + value_size (snd e)) es) +
     (case p of None \<Rightarrow> 0 | Some k \<Rightarrow> 1 + length k)"

definition stack_size :: "frame list \<Rightarrow> nat" where
  "stack_size st = sum_list (map frame_size st)"

text \<open>
  The states that the loop \<^const>\<open>run\<close> passes through, in order: the work stack and
  the offset before each step, up to the state whose step fails or completes the value,
  or to the end of the buffer.
\<close>

fun trace :: "decoder_config \<Rightarrow> frame list \<Rightarrow> nat \<Rightarrow> string \<Rightarrow> (frame list \<times> nat) list" where
  "trace cfg st pos [] = [(st, pos)]"
| "trace cfg st pos (c # cs) =
     (st, pos) #
     (case step cfg st pos c cs of
        Failed e \<Rightarrow> []
      | Finished v n \<Rightarrow> []
      | Continue st' n \<Rightarrow> trace cfg st' (pos + 1 + n) (drop n cs))"

section \<open>The scrape URL\<close>

lemma replace_Nil: "old \<noteq> [] \<Longrightarrow> replace old new [] = []"
  by (simp add: replace.simps)

lemma replace_Cons:
  "old \<noteq> [] \<Longrightarrow> replace old new (c # cs) =
     (if prefix old (c # cs) then new @ replace old new (drop (length old) (c # cs))
      else c # replace old new cs)"
  by (subst replace.simps) simp

lemma replace_absent:
  "old \<noteq> [] \<Longrightarrow> \<not> sublist old s \<Longrightarrow> replace old new s = s"
  by (induction s) (auto simp: replace_Nil replace_Cons sublist_Cons_right)

text \<open>
  An occurrence of \<open>old\<close> cannot begin before an occurrence at the front of \<open>old @ b\<close> and
  reach into it when the first character of \<open>old\<close> occurs nowhere else in \<open>old\<close>.
\<close>

lemma prefix_overlap:
  assumes "old \<noteq> []" and "hd old \<notin> set (tl old)"
    and "prefix old (a @ old @ b)" and "a \<noteq> []"
  shows "prefix old a"
proof (rule ccontr)
  assume np: "\<not> prefix old a"
  with assms(3) obtain us where us: "old = a @ us" "prefix us (old @ b)"
    unfolding prefix_append by blast
  from np us(1) have "us \<noteq> []" by auto
  then obtain u us' where U: "us = u # us'" by (cases us) auto
  from assms(1) obtain x os where O: "old = x # os" by (cases old) auto
  from assms(4) obtain y a' where A: "a = y # a'" by (cases a) auto
  have "prefix (u # us') (x # (os @ b))" using us(2) unfolding U O by simp
  then have "u = x" by simp
  have "x # os = y # (a' @ u # us')" using us(1) unfolding U O A by simp
  then have "os = a' @ u # us'" by simp
  then have "u \<in> set os" by simp
  with \<open>u = x\<close> assms(2) show False unfolding O by simp
qed

lemma replace_first:
  assumes "old \<noteq> []" and "hd old \<notin> set (tl old)"
  shows "\<not> sublist old a \<Longrightarrow> replace old new (a @ old @ b) = a @ new @ replace old new b"
proof (induction a)
  case Nil
  from assms(1) show ?case by (cases old) (simp_all add: replace_Cons)
next
  case (Cons c a)
  from Cons.prems have np: "\<not> prefix old (c # a)" and ns: "\<not> sublist old a"
    by (auto simp: sublist_Cons_right)
  have "\<not> prefix old ((c # a) @ old @ b)"
    using prefix_overlap [OF assms, of "c # a" b] np by blast
  then show ?case using Cons.IH [OF ns] assms(1) by (simp add: replace_Cons)
qed

lemma replace_join:
  assumes "old \<noteq> []" and "hd old \<notin> set (tl old)"
  shows "\<forall>p \<in> set ps. \<not> sublist old p \<Longrightarrow> replace old new (join old ps) = join new ps"
proof (induction ps)
  case Nil then show ?case using assms by (simp add: replace_Nil)
next
  case (Cons p ps)
  show ?case
  proof (cases ps)
    case Nil with Cons.prems show ?thesis using assms by (simp add: replace_absent)
  next
    case (Cons q qs)
    with Cons.IH Cons.prems show ?thesis using assms by (simp add: replace_first)
  qed
qed

lemma sublist_join: "sublist sep (join sep (p # q # ps))"
  by (auto simp: sublist_def)

lemma scrape_url_join:
  assumes "\<forall>x \<in> set (p # ps). \<not> sublist ''/announce'' x"
  shows "scrape_url (join ''/announce'' (p # ps)) =
           (if ps = [] then rstrip ''/'' p @ ''/scrape'' else join ''/scrape'' (p # ps))"
proof (cases ps)
  case Nil
  with assms show ?thesis by (simp add: scrape_url_def)
next
  case (Cons q qs)
  have "replace ''/announce'' ''/scrape'' (join ''/announce'' (p # ps)) = join ''/scrape'' (p # ps)"
    by (rule replace_join) (use assms in simp_all)
  with Cons show ?thesis using sublist_join [of "''/announce''" p q qs]
    by (simp add: scrape_url_def del: join.simps)
qed

lemma first_occurrence:
  assumes "old \<noteq> []"
  shows "sublist old u \<Longrightarrow> \<exists>a b. u = a @ old @ b \<and> \<not> sublist old a"
proof (induction u)
  case Nil
  with assms show ?case by simp
next
  case (Cons c cs)
  show ?case
  proof (cases "prefix old (c # cs)")
    case True
    then obtain b where "c # cs = old @ b" by (auto simp: prefix_def)
    with assms have "c # cs = [] @ old @ b \<and> \<not> sublist old []" by simp
    then show ?thesis by blast
  next
    case False
    with Cons.prems have "sublist old cs" by (simp add: sublist_Cons_right)
    with Cons.IH obtain a b where ab: "cs = a @ old @ b" "\<not> sublist old a" by blast
    have "\<not> prefix old (c # a)"
    proof
      assume "prefix old (c # a)"
      then have "prefix old ((c # a) @ old @ b)" by (rule prefix_prefix)
      with False ab(1) show False by simp
    qed
    with ab(2) have "\<not> sublist old (c # a)" by (simp add: sublist_Cons_right)
    with ab(1) have "c # cs = (c # a) @ old @ b \<and> \<not> sublist old (c # a)" by simp
    then show ?thesis by blast
  qed
qed

lemma split_at_occurrences:
  assumes "old \<noteq> []"
  shows "\<exists>p ps. u = join old (p # ps) \<and> (\<forall>x \<in> set (p # ps). \<not> sublist old x)"
proof (induction u rule: length_induct)
  case (1 u)
  show ?case
  proof (cases "sublist old u")
    case False
    then have "u = join old [u] \<and> (\<forall>x \<in> set [u]. \<not> sublist old x)" by simp
    then show ?thesis by blast
  next
    case True
    from first_occurrence [OF assms True] obtain a b
      where ab: "u = a @ old @ b" "\<not> sublist old a" by blast
    with assms have "length b < length u" by (cases old) simp_all
    with 1 obtain q qs where q: "b = join old (q # qs)" "\<forall>x \<in> set (q # qs). \<not> sublist old x"
      by blast
    with ab have "u = join old (a # q # qs) \<and> (\<forall>x \<in> set (a # q # qs). \<not> sublist old x)"
      by simp
    then show ?thesis by blast
  qed
qed

text \<open>
  C1, as the code has it.  Every tracker URL can be cut at its occurrences of \<open>/announce\<close>:
  it is pieces \<open>p # ps\<close> joined by \<open>/announce\<close>, and no piece contains \<open>/announce\<close>.
  With one piece only (no occurrence) the scrape URL is the URL without its trailing
  slashes followed by \<open>/scrape\<close>.  Otherwise the scrape URL is the same pieces joined by
  \<open>/scrape\<close>: every occurrence of the substring is replaced, wherever it stands, and
  nothing else changes.
\<close>

theorem scrape_url_replaces_every_occurrence:
  "\<exists>p ps. tracker_url = join ''/announce'' (p # ps) \<and>
     (\<forall>x \<in> set (p # ps). \<not> sublist ''/announce'' x) \<and>
     scrape_url tracker_url =
       (if ps = [] then rstrip ''/'' p @ ''/scrape'' else join ''/scrape'' (p # ps))"
proof -
  obtain p ps where s: "tracker_url = join ''/announce'' (p # ps)"
      "\<forall>x \<in> set (p # ps). \<not> sublist ''/announce'' x"
    using split_at_occurrences [of "''/announce''" tracker_url] by auto
  from scrape_url_join [OF s(2)] s show ?thesis by blast
qed

text \<open>
  The theorem at \<open>http://t.example/announcements/announce\<close>, whose pieces are
  \<open>http://t.example\<close>, \<open>ments\<close> and the empty string.
\<close>

theorem scrape_url_replaces_every_occurrence_witness:
  "(\<exists>p ps. ''http://t.example/announcements/announce'' = join ''/announce'' (p # ps) \<and>
     (\<forall>x \<in> set (p # ps). \<not> sublist ''/announce'' x) \<and>
     scrape_url ''http://t.example/announcements/announce'' =
       (if ps = [] then rstrip ''/'' p @ ''/scrape'' else join ''/scrape'' (p # ps))) \<and>
   ''http://t.example/announcements/announce'' =
     join ''/announce'' [''http://t.example'', ''ments'', ''''] \<and>
   \<not> sublist ''/announce'' ''http://t.example'' \<and>
   \<not> sublist ''/announce'' ''ments'' \<and>
   \<not> sublist ''/announce'' '''' \<and>
   scrape_url ''http://t.example/announcements/announce'' =
     join ''/scrape'' [''http://t.example'', ''ments'', ''''] \<and>
   join ''/scrape'' [''http://t.example'', ''ments'', ''''] =
     ''http://t.example/scrapements/scrape''"
proof -
  have c: "''http://t.example/announcements/announce'' =
     join ''/announce'' [''http://t.example'', ''ments'', ''''] \<and>
   \<not> sublist ''/announce'' ''http://t.example'' \<and>
   \<not> sublist ''/announce'' ''ments'' \<and>
   \<not> sublist ''/announce'' '''' \<and>
   scrape_url ''http://t.example/announcements/announce'' =
     join ''/scrape'' [''http://t.example'', ''ments'', ''''] \<and>
   join ''/scrape'' [''http://t.example'', ''ments'', ''''] =
     ''http://t.example/scrapements/scrape''"
    by code_simp
  with scrape_url_replaces_every_occurrence [of "''http://t.example/announcements/announce''"]
  show ?thesis by blast
qed

text \<open>
  C1 as stated fails: in \<open>http://t.example/announcements/announce\<close> the code also rewrites
  the \<open>/announce\<close> that begins the longer segment \<open>/announcements\<close>, where the derivation
  of the specification replaces the last segment only.
\<close>

theorem scrape_url_counterexample:
  "scrape_url ''http://t.example/announcements/announce'' = ''http://t.example/scrapements/scrape'' \<and>
   spec_scrape_url ''http://t.example/announcements/announce'' = ''http://t.example/announcements/scrape''"
  by code_simp

section \<open>The regular-expression extractor of manual-scrape.py\<close>

text \<open>
  C2.  The response \<^const>\<open>hazard_response\<close> is the encoding of the well-formed tree
  \<^const>\<open>hazard_tree\<close> and decodes to it.  The text \<open>8:completei5e\<close> occurs in it once, at
  offset 42, which is the payload of the byte string \<open>13:8:completei5e\<close> that starts at
  offset 39; the entry has no field \<open>complete\<close>.  The regular-expression extractor of
  manual-scrape.py reports 5 seeders for it, while the decoder followed by the typed
  accessors, and manual-scrape-better.py on the same decoder, report 0.
\<close>

theorem regex_extractor_reads_inside_byte_string:
  "well_formed hazard_tree \<and> key_ordered hazard_tree \<and>
   encode hazard_tree = hazard_response \<and>
   decode_all default_config hazard_response = Inr hazard_tree \<and>
   hazard_response =
     ''d5:filesd20:AAAAAAAAAAAAAAAAAAAAd4:name'' @ encode (ByteString ''8:completei5e'') @ ''eee'' \<and>
   occurrences ''8:completei5e'' hazard_response = [42] \<and>
   occurrences (encode (ByteString ''8:completei5e'')) hazard_response = [39] \<and>
   fromhex hazard_hash = Inr hazard_identifier \<and>
   length hazard_identifier = 20 \<and>
   fst (scrape_http_tracker 4300 (tracker_replies hazard_response)
          ''http://t.example/announce'' hazard_hash)
     = Inr (Some \<lparr>seeders = 5, leechers = 0, downloads = 0\<rparr>) \<and>
   scrape_counters hazard_tree hazard_identifier
     = Inr \<lparr>seeders = 0, leechers = 0, downloads = 0\<rparr> \<and>
   fst (scrape_http_tracker_better decode_or_raise (tracker_replies hazard_response)
          ''http://t.example/announce'' hazard_hash)
     = Inr (Some \<lparr>seeders = Integer 0, leechers = Integer 0, downloads = Integer 0\<rparr>)"
  by code_simp

section \<open>The info_hash query parameter\<close>

text \<open>
  C3.  For the info hash that both scripts query, forty hexadecimal characters,
  manual-scrape.py sends the percent-encoding of the percent-encoding of the twenty bytes
  (every \<open>%\<close> of the first encoding has become \<open>%25\<close>), and manual-scrape-better.py
  sends the percent-encoding of the twenty bytes; the two values differ.
\<close>

theorem info_hash_encodings_differ:
  "length script_info_hash = 40 \<and>
   list_all (\<lambda>c. hex_value c \<noteq> None) script_info_hash \<and>
   info_hash_param_manual script_info_hash =
     Inr ''%25BA%250E%2526uy%25FAb%2598%2517%2595%25DC%25C0Y%25FBa%25E1%25AF%255C%25A4%2529'' \<and>
   info_hash_param_better script_info_hash =
     Inr ''%BA%0E%26uy%FAb%98%17%95%DC%C0Y%FBa%E1%AF%5C%A4%29'' \<and>
   info_hash_param_manual script_info_hash \<noteq> info_hash_param_better script_info_hash"
  by code_simp

section \<open>Errors of the decoder\<close>

text \<open>
  C7.  Whatever the configuration, decoding \<open>4:sp\<close>, a byte string that declares four
  bytes where two remain, fails with \<open>TruncatedInputError\<close> (at the end of the buffer,
  offset 4) and not with \<open>SyntaxError\<close>.
\<close>

theorem truncated_byte_string:
  "decode_all cfg ''4:sp'' = Inl (TruncatedInputError 4) \<and>
   (\<forall>off. decode_all cfg ''4:sp'' \<noteq> Inl (SyntaxError off))"
  by (simp add: decode_all_def decode_def step_def read_bytes_def is_digit_def
      decimal_value_def digit_value_def)

section \<open>The lookups of manual-scrape-better.py\<close>

lemma read_stats_found:
  "stats_entry ident data = Some entry \<Longrightarrow>
   read_stats ident data =
     (Inr (Some \<lparr>seeders = field_or_zero entry ''complete'',
                 leechers = field_or_zero entry ''incomplete'',
                 downloads = field_or_zero entry ''downloaded''\<rparr>),
      [StatsLine (field_or_zero entry ''complete'') (field_or_zero entry ''incomplete'')
         (field_or_zero entry ''downloaded'')])"
  by (auto simp: stats_entry_def read_stats_def field_or_zero_def
      split: BencodeValue.splits option.splits)

lemma better_on_200:
  "fromhex h = Inr ident \<Longrightarrow> get (scrape_url u) (PyBytes ident) = Response 200 content \<Longrightarrow>
   scrape_http_tracker_better dec get u h =
     (case decode_and_read dec ident content of
        (Inl e, printed) \<Rightarrow>
          (Inr None,
           [Scraping (scrape_url u)] @ printed @ [DecodeFailed e] @
           (if sublist ''<html'' (take 100 (py_lower content)) then [HtmlHint] else []))
      | (Inr result, printed) \<Rightarrow> (Inr result, [Scraping (scrape_url u)] @ printed))"
  by (simp add: scrape_http_tracker_better_def Let_def)

text \<open>
  C5.  When the response decodes and its \<open>files\<close> dictionary has a dictionary entry for
  the queried identifier, the function returns, as seeders, leechers and downloads, the
  values of the fields \<open>complete\<close>, \<open>incomplete\<close> and \<open>downloaded\<close> of that entry, and
  the integer zero for a field that the entry does not have.  The lookup block
  \<^const>\<open>read_stats\<close> alone returns the same.  An integer field is returned as that integer.
\<close>

theorem counters_of_present_entry:
  assumes "fromhex info_hash_hex = Inr ident"
    and "requests_get (scrape_url tracker_url) (PyBytes ident) = Response 200 content"
    and "bencodepy_decode content = Inr data"
    and "stats_entry ident data = Some entry"
  shows "fst (scrape_http_tracker_better bencodepy_decode requests_get tracker_url info_hash_hex) =
           Inr (Some \<lparr>seeders = field_or_zero entry ''complete'',
                       leechers = field_or_zero entry ''incomplete'',
                       downloads = field_or_zero entry ''downloaded''\<rparr>) \<and>
         fst (read_stats ident data) =
           Inr (Some \<lparr>seeders = field_or_zero entry ''complete'',
                       leechers = field_or_zero entry ''incomplete'',
                       downloads = field_or_zero entry ''downloaded''\<rparr>) \<and>
         (\<forall>k i. map_of entry k = Some (Integer i) \<longrightarrow> field_or_zero entry k = Integer i) \<and>
         (\<forall>k. map_of entry k = None \<longrightarrow> field_or_zero entry k = Integer 0)"
  using assms
  by (simp add: better_on_200 decode_and_read_def read_stats_found field_or_zero_def)


text \<open>On the specification's example response the three counters are 5, 2 and 100.\<close>

theorem counters_of_present_entry_witness:
  "fst (scrape_http_tracker_better decode_or_raise (tracker_replies example_response)
          ''http://t.example/announce'' hazard_hash) =
     Inr (Some \<lparr>seeders = Integer 5, leechers = Integer 2, downloads = Integer 100\<rparr>)"
proof -
  let ?entry = "[(''complete'', Integer 5), (''downloaded'', Integer 100), (''incomplete'', Integer 2)]"
  let ?data = "Dictionary [(''files'', Dictionary [(hazard_identifier, Dictionary ?entry)])]"
  have h1: "fromhex hazard_hash = Inr hazard_identifier" by code_simp
  have h2: "tracker_replies example_response (scrape_url ''http://t.example/announce'')
              (PyBytes hazard_identifier) = Response 200 example_response"
    by (simp add: tracker_replies_def)
  have h3: "decode_or_raise example_response = Inr ?data" by code_simp
  have h4: "stats_entry hazard_identifier ?data = Some ?entry" by code_simp
  have f: "field_or_zero ?entry ''complete'' = Integer 5"
    "field_or_zero ?entry ''incomplete'' = Integer 2"
    "field_or_zero ?entry ''downloaded'' = Integer 100" by code_simp+
  from counters_of_present_entry [where requests_get = "tracker_replies example_response"
      and bencodepy_decode = decode_or_raise, OF h1 h2 h3 h4] show ?thesis unfolding f by simp
qed

lemma better_on_200_hint:
  "fromhex h = Inr ident \<Longrightarrow> get (scrape_url u) (PyBytes ident) = Response 200 content \<Longrightarrow>
   scrape_http_tracker_better dec get u h =
     (case decode_and_read dec ident content of
        (Inl e, printed) \<Rightarrow>
          (Inr None, [Scraping (scrape_url u)] @ printed @ [DecodeFailed e] @ html_hint content)
      | (Inr result, printed) \<Rightarrow> (Inr result, [Scraping (scrape_url u)] @ printed))"
  unfolding html_hint_def by (rule better_on_200)

text \<open>What the lookup block does when it does not reach the entry of the identifier.\<close>

lemma read_stats_failure:
  assumes "stats_entry ident data = None"
  shows "(\<exists>ks. read_stats ident data = (Inr None, [NoFilesKey, ResponseKeys ks])) \<or>
         read_stats ident data = (Inr None, [HashNotFound]) \<or>
         read_stats ident data = (Inl TypeError, []) \<or>
         read_stats ident data = (Inl AttributeError, []) \<or>
         read_stats ident data = (Inl AttributeError, [NoFilesKey])"
  using assms
  apply (cases data)
     apply (auto simp: stats_entry_def read_stats_def split: BencodeValue.splits option.splits sum.splits bool.splits)
  done

lemma read_stats_entry_not_dict:
  assumes "map_of root ''files'' = Some (Dictionary files)" and "map_of files ident = Some v"
    and "stats_entry ident (Dictionary root) = None"
  shows "read_stats ident (Dictionary root) = (Inl AttributeError, [])"
  using assms by (cases v) (simp_all add: stats_entry_def read_stats_def)

lemma read_stats_integer:
  "read_stats ident (Integer i) = (Inl TypeError, [])"
  "map_of root ''files'' = Some (Integer i) \<Longrightarrow> read_stats ident (Dictionary root) = (Inl TypeError, [])"
  by (simp_all add: read_stats_def)

text \<open>
  C4, as the code has it.  On a response with status 200 every failure returns the same
  value \<open>None\<close>, so the value returned does not tell one failure from another; the lines
  printed are these, after the line that names the scrape URL.
    \<^item> A response that does not decode: the decode-failure line with the exception of the
      decoder, then the HTML hint when the response begins like an HTML page.
    \<^item> A decoded dictionary without the key \<open>files\<close>: the line about the missing key and
      the line with the keys of the response.
    \<^item> A \<open>files\<close> dictionary without the identifier: the line about the missing info
      hash.
    \<^item> A wrong variant: when the entry of the identifier is not a dictionary, the
      decode-failure line with an \<open>AttributeError\<close>; when the value of \<open>files\<close> or the
      response itself is an integer, the decode-failure line with a \<open>TypeError\<close>.  It is
      the line of a response that does not decode, and only the exception shown in it is
      another one.
    \<^item> Every decoded response in which a lookup step does not find a dictionary prints
      one of five outputs: the two lines about the missing key, the line about the missing
      info hash, the decode-failure line with a \<open>TypeError\<close> or with an
      \<open>AttributeError\<close>, or the line about the missing key followed by the decode-failure
      line with an \<open>AttributeError\<close>.
\<close>

theorem failed_lookups_return_None:
  assumes "fromhex info_hash_hex = Inr ident"
    and "requests_get (scrape_url tracker_url) (PyBytes ident) = Response 200 content"
  shows
    "(bencodepy_decode content = Inl e \<longrightarrow>
        scrape_http_tracker_better bencodepy_decode requests_get tracker_url info_hash_hex =
          (Inr None, [Scraping (scrape_url tracker_url), DecodeFailed e] @ html_hint content)) \<and>
     (bencodepy_decode content = Inr (Dictionary root) \<and> map_of root ''files'' = None \<longrightarrow>
        scrape_http_tracker_better bencodepy_decode requests_get tracker_url info_hash_hex =
          (Inr None, [Scraping (scrape_url tracker_url), NoFilesKey, ResponseKeys (map fst root)])) \<and>
     (bencodepy_decode content = Inr (Dictionary root) \<and> map_of root ''files'' = Some (Dictionary files) \<and>
      map_of files ident = None \<longrightarrow>
        scrape_http_tracker_better bencodepy_decode requests_get tracker_url info_hash_hex =
          (Inr None, [Scraping (scrape_url tracker_url), HashNotFound])) \<and>
     (bencodepy_decode content = Inr (Dictionary root) \<and> map_of root ''files'' = Some (Dictionary files) \<and>
      map_of files ident = Some v \<and> stats_entry ident (Dictionary root) = None \<longrightarrow>
        scrape_http_tracker_better bencodepy_decode requests_get tracker_url info_hash_hex =
          (Inr None,
           [Scraping (scrape_url tracker_url), DecodeFailed AttributeError] @ html_hint content)) \<and>
     (bencodepy_decode content = Inr (Dictionary root) \<and> map_of root ''files'' = Some (Integer i) \<longrightarrow>
        scrape_http_tracker_better bencodepy_decode requests_get tracker_url info_hash_hex =
          (Inr None, [Scraping (scrape_url tracker_url), DecodeFailed TypeError] @ html_hint content)) \<and>
     (bencodepy_decode content = Inr (Integer i) \<longrightarrow>
        scrape_http_tracker_better bencodepy_decode requests_get tracker_url info_hash_hex =
          (Inr None, [Scraping (scrape_url tracker_url), DecodeFailed TypeError] @ html_hint content)) \<and>
     (bencodepy_decode content = Inr data \<and> stats_entry ident data = None \<longrightarrow>
        fst (scrape_http_tracker_better bencodepy_decode requests_get tracker_url info_hash_hex) = Inr None \<and>
        ((\<exists>ks. snd (scrape_http_tracker_better bencodepy_decode requests_get tracker_url info_hash_hex) =
                [Scraping (scrape_url tracker_url), NoFilesKey, ResponseKeys ks]) \<or>
         snd (scrape_http_tracker_better bencodepy_decode requests_get tracker_url info_hash_hex) =
           [Scraping (scrape_url tracker_url), HashNotFound] \<or>
         snd (scrape_http_tracker_better bencodepy_decode requests_get tracker_url info_hash_hex) =
           [Scraping (scrape_url tracker_url), DecodeFailed TypeError] @ html_hint content \<or>
         snd (scrape_http_tracker_better bencodepy_decode requests_get tracker_url info_hash_hex) =
           [Scraping (scrape_url tracker_url), DecodeFailed AttributeError] @ html_hint content \<or>
         snd (scrape_http_tracker_better bencodepy_decode requests_get tracker_url info_hash_hex) =
           [Scraping (scrape_url tracker_url), NoFilesKey, DecodeFailed AttributeError] @
           html_hint content))"
  (is "?a \<and> ?b \<and> ?c \<and> ?d \<and> ?e \<and> ?f \<and> ?g")
proof -
  note on200 = better_on_200_hint [where get = requests_get and dec = bencodepy_decode, OF assms]
  have a: ?a by (simp add: on200 decode_and_read_def)
  have b: ?b by (simp add: on200 decode_and_read_def read_stats_def)
  have c: ?c by (simp add: on200 decode_and_read_def read_stats_def)
  have d: ?d by (auto simp: on200 decode_and_read_def read_stats_entry_not_dict)
  have e: ?e by (simp add: on200 decode_and_read_def read_stats_integer)
  have f: ?f by (simp add: on200 decode_and_read_def read_stats_integer)
  have g: ?g
  proof (intro impI, elim conjE)
    assume dd: "bencodepy_decode content = Inr data" and "stats_entry ident data = None"
    from read_stats_failure [OF this(2)]
    show "fst (scrape_http_tracker_better bencodepy_decode requests_get tracker_url info_hash_hex) = Inr None \<and>
        ((\<exists>ks. snd (scrape_http_tracker_better bencodepy_decode requests_get tracker_url info_hash_hex) =
                [Scraping (scrape_url tracker_url), NoFilesKey, ResponseKeys ks]) \<or>
         snd (scrape_http_tracker_better bencodepy_decode requests_get tracker_url info_hash_hex) =
           [Scraping (scrape_url tracker_url), HashNotFound] \<or>
         snd (scrape_http_tracker_better bencodepy_decode requests_get tracker_url info_hash_hex) =
           [Scraping (scrape_url tracker_url), DecodeFailed TypeError] @ html_hint content \<or>
         snd (scrape_http_tracker_better bencodepy_decode requests_get tracker_url info_hash_hex) =
           [Scraping (scrape_url tracker_url), DecodeFailed AttributeError] @ html_hint content \<or>
         snd (scrape_http_tracker_better bencodepy_decode requests_get tracker_url info_hash_hex) =
           [Scraping (scrape_url tracker_url), NoFilesKey, DecodeFailed AttributeError] @
           html_hint content)"
      by (auto simp: on200 decode_and_read_def dd)
  qed
  from a b c d e f g show ?thesis by blast
qed

text \<open>
  The theorem at six responses: \<open>x\<close> is not bencode; \<open>de\<close> has no \<open>files\<close> key;
  \<open>d5:filesdee\<close> has no entry for the identifier; in \<open>d5:filesi7ee\<close> the value of
  \<open>files\<close> is an integer; \<open>i7e\<close> is an integer; and in the last one the entry of the
  identifier is the integer 7.  None of them begins like an HTML page.
\<close>

theorem failed_lookups_return_None_witness:
  "scrape_http_tracker_better decode_or_raise (tracker_replies ''x'')
     ''http://t.example/announce'' hazard_hash =
     (Inr None, [Scraping ''http://t.example/scrape'', DecodeFailed BencodeDecodeError]) \<and>
   scrape_http_tracker_better decode_or_raise (tracker_replies ''de'')
     ''http://t.example/announce'' hazard_hash =
     (Inr None, [Scraping ''http://t.example/scrape'', NoFilesKey, ResponseKeys []]) \<and>
   scrape_http_tracker_better decode_or_raise (tracker_replies ''d5:filesdee'')
     ''http://t.example/announce'' hazard_hash =
     (Inr None, [Scraping ''http://t.example/scrape'', HashNotFound]) \<and>
   scrape_http_tracker_better decode_or_raise (tracker_replies ''d5:filesi7ee'')
     ''http://t.example/announce'' hazard_hash =
     (Inr None, [Scraping ''http://t.example/scrape'', DecodeFailed TypeError]) \<and>
   scrape_http_tracker_better decode_or_raise (tracker_replies ''i7e'')
     ''http://t.example/announce'' hazard_hash =
     (Inr None, [Scraping ''http://t.example/scrape'', DecodeFailed TypeError]) \<and>
   scrape_http_tracker_better decode_or_raise
     (tracker_replies (''d5:filesd20:'' @ hazard_identifier @ ''i7eee''))
     ''http://t.example/announce'' hazard_hash =
     (Inr None, [Scraping ''http://t.example/scrape'', DecodeFailed AttributeError])"
proof -
  let ?entry_response = "''d5:filesd20:'' @ hazard_identifier @ ''i7eee''"
  let ?files = "[(hazard_identifier, Integer 7)]"
  have h1: "fromhex hazard_hash = Inr hazard_identifier" by code_simp
  have h2: "tracker_replies c (scrape_url ''http://t.example/announce'')
              (PyBytes hazard_identifier) = Response 200 c" for c
    by (simp add: tracker_replies_def)
  have u: "scrape_url ''http://t.example/announce'' = ''http://t.example/scrape''" by code_simp
  have hint: "html_hint ''x'' = []" "html_hint ''d5:filesi7ee'' = []" "html_hint ''i7e'' = []"
    "html_hint ?entry_response = []"
    by code_simp+
  have a: "decode_or_raise ''x'' = Inl BencodeDecodeError" by code_simp
  have b: "decode_or_raise ''de'' = Inr (Dictionary []) \<and>
           map_of ([] :: (string \<times> BencodeValue) list) ''files'' = None"
    by code_simp
  have c: "decode_or_raise ''d5:filesdee'' = Inr (Dictionary [(''files'', Dictionary [])]) \<and>
           map_of [(''files'', Dictionary [])] ''files'' = Some (Dictionary []) \<and>
           map_of ([] :: (string \<times> BencodeValue) list) hazard_identifier = None"
    by code_simp
  have d: "decode_or_raise ?entry_response = Inr (Dictionary [(''files'', Dictionary ?files)]) \<and>
           map_of [(''files'', Dictionary ?files)] ''files'' = Some (Dictionary ?files) \<and>
           map_of ?files hazard_identifier = Some (Integer 7) \<and>
           stats_entry hazard_identifier (Dictionary [(''files'', Dictionary ?files)]) = None"
    by code_simp
  have e: "decode_or_raise ''d5:filesi7ee'' = Inr (Dictionary [(''files'', Integer 7)]) \<and>
           map_of [(''files'', Integer 7)] ''files'' = Some (Integer 7)"
    by code_simp
  have f: "decode_or_raise ''i7e'' = Inr (Integer 7)" by code_simp
  from failed_lookups_return_None [where requests_get = "tracker_replies ''x''"
      and bencodepy_decode = decode_or_raise and e = BencodeDecodeError, OF h1 h2] a
  have 1: "scrape_http_tracker_better decode_or_raise (tracker_replies ''x'')
     ''http://t.example/announce'' hazard_hash =
     (Inr None, [Scraping ''http://t.example/scrape'', DecodeFailed BencodeDecodeError])"
    unfolding u hint by simp
  from failed_lookups_return_None [where requests_get = "tracker_replies ''de''"
      and bencodepy_decode = decode_or_raise and root = "[]", OF h1 h2] b
  have 2: "scrape_http_tracker_better decode_or_raise (tracker_replies ''de'')
     ''http://t.example/announce'' hazard_hash =
     (Inr None, [Scraping ''http://t.example/scrape'', NoFilesKey, ResponseKeys []])"
    unfolding u by simp
  from failed_lookups_return_None [where requests_get = "tracker_replies ''d5:filesdee''"
      and bencodepy_decode = decode_or_raise and root = "[(''files'', Dictionary [])]"
      and files = "[]", OF h1 h2] c
  have 3: "scrape_http_tracker_better decode_or_raise (tracker_replies ''d5:filesdee'')
     ''http://t.example/announce'' hazard_hash =
     (Inr None, [Scraping ''http://t.example/scrape'', HashNotFound])"
    unfolding u by simp
  from failed_lookups_return_None [where requests_get = "tracker_replies ''d5:filesi7ee''"
      and bencodepy_decode = decode_or_raise and root = "[(''files'', Integer 7)]" and i = 7,
      OF h1 h2] e
  have 4: "scrape_http_tracker_better decode_or_raise (tracker_replies ''d5:filesi7ee'')
     ''http://t.example/announce'' hazard_hash =
     (Inr None, [Scraping ''http://t.example/scrape'', DecodeFailed TypeError])"
    unfolding u hint by simp
  from failed_lookups_return_None [where requests_get = "tracker_replies ''i7e''"
      and bencodepy_decode = decode_or_raise and i = 7, OF h1 h2] f
  have 5: "scrape_http_tracker_better decode_or_raise (tracker_replies ''i7e'')
     ''http://t.example/announce'' hazard_hash =
     (Inr None, [Scraping ''http://t.example/scrape'', DecodeFailed TypeError])"
    unfolding u hint by simp
  from failed_lookups_return_None [where requests_get = "tracker_replies ?entry_response"
      and bencodepy_decode = decode_or_raise and root = "[(''files'', Dictionary ?files)]"
      and files = ?files and v = "Integer 7", OF h1 h2] d
  have 6: "scrape_http_tracker_better decode_or_raise (tracker_replies ?entry_response)
     ''http://t.example/announce'' hazard_hash =
     (Inr None, [Scraping ''http://t.example/scrape'', DecodeFailed AttributeError])"
    unfolding u hint by simp
  from 1 2 3 4 5 6 show ?thesis by simp
qed

text \<open>
  C4 as stated fails: for the response \<open>de\<close>, which decodes to a dictionary without the
  \<open>files\<close> key, and for the response \<open>x\<close>, which does not decode, the caller receives
  the same value \<open>None\<close>.
\<close>

theorem lookup_failure_counterexample:
  "decode_or_raise ''de'' = Inr (Dictionary []) \<and>
   decode_or_raise ''x'' = Inl BencodeDecodeError \<and>
   fst (scrape_http_tracker_better decode_or_raise (tracker_replies ''de'')
          ''http://t.example/announce'' hazard_hash) = Inr None \<and>
   fst (scrape_http_tracker_better decode_or_raise (tracker_replies ''x'')
          ''http://t.example/announce'' hazard_hash) = Inr None"
  by code_simp

section \<open>The result of manual-scrape.py\<close>

lemma manual_on_200:
  "hex_to_url_encoded h = Inr enc \<Longrightarrow> get (scrape_url u) (PyStr enc) = Response 200 content \<Longrightarrow>
   scrape_http_tracker m get u h =
     (case parse_counters m content of
        Inl e \<Rightarrow>
          (Inr None,
           [Scraping (scrape_url u), ResponseLength (length content),
            RawResponse (take 200 content), ErrorLine])
      | Inr (result, printed) \<Rightarrow>
          (Inr result,
           [Scraping (scrape_url u), ResponseLength (length content),
            RawResponse (take 200 content)] @ printed))"
  by (simp add: scrape_http_tracker_def Let_def)

lemma parse_counters_Some:
  "parse_counters m content = Inr (Some st, printed) \<Longrightarrow>
   re_search_counter ''8:complete'' content \<noteq> None \<or>
   re_search_counter ''10:incomplete'' content \<noteq> None"
  unfolding parse_counters_def Let_def by (auto split: if_splits)

lemma manual_Some:
  assumes "fst (scrape_http_tracker m get u h) = Inr (Some st)"
  shows "\<exists>enc content. hex_to_url_encoded h = Inr enc \<and>
           get (scrape_url u) (PyStr enc) = Response 200 content \<and>
           (re_search_counter ''8:complete'' content \<noteq> None \<or>
            re_search_counter ''10:incomplete'' content \<noteq> None)"
proof (cases "hex_to_url_encoded h")
  case (Inl e)
  with assms show ?thesis by (simp add: scrape_http_tracker_def Let_def)
next
  case (Inr enc)
  show ?thesis
  proof (cases "get (scrape_url u) (PyStr enc)")
    case (Response status content)
    show ?thesis
    proof (cases "status = 200")
      case True
      note on = manual_on_200 [where get = get, OF Inr Response [unfolded True], of m]
      from assms obtain printed where "parse_counters m content = Inr (Some st, printed)"
        unfolding on by (cases "parse_counters m content") (auto split: prod.splits)
      from parse_counters_Some [OF this] Inr Response True show ?thesis by blast
    next
      case False
      with assms Inr Response show ?thesis by (simp add: scrape_http_tracker_def Let_def)
    qed
  qed (use assms Inr in \<open>simp_all add: scrape_http_tracker_def Let_def\<close>)
qed

text \<open>
  C10.  When the body of a status-200 response matches the pattern of \<open>downloaded\<close> and
  neither the pattern of \<open>complete\<close> nor that of \<open>incomplete\<close>, the function prints
  that it could not parse the response and returns \<open>None\<close>; the download count appears
  nowhere in the result.  And whenever the function returns statistics, the request was
  answered with status 200 and a body that matches the pattern of \<open>complete\<close> or that of
  \<open>incomplete\<close>.
\<close>

theorem downloaded_alone_is_discarded:
  "(hex_to_url_encoded info_hash = Inr encoded_hash \<and>
    requests_get (scrape_url tracker_url) (PyStr encoded_hash) = Response 200 content \<and>
    re_search_counter ''10:downloaded'' content = Some n \<and>
    re_search_counter ''8:complete'' content = None \<and>
    re_search_counter ''10:incomplete'' content = None \<longrightarrow>
      scrape_http_tracker int_max_str_digits requests_get tracker_url info_hash =
        (Inr None,
         [Scraping (scrape_url tracker_url), ResponseLength (length content),
          RawResponse (take 200 content), CouldNotParse])) \<and>
   (fst (scrape_http_tracker int_max_str_digits requests_get tracker_url info_hash) = Inr (Some st) \<longrightarrow>
      (\<exists>enc body. hex_to_url_encoded info_hash = Inr enc \<and>
         requests_get (scrape_url tracker_url) (PyStr enc) = Response 200 body \<and>
         (re_search_counter ''8:complete'' body \<noteq> None \<or>
          re_search_counter ''10:incomplete'' body \<noteq> None)))"
proof (intro conjI impI)
  assume "hex_to_url_encoded info_hash = Inr encoded_hash \<and>
    requests_get (scrape_url tracker_url) (PyStr encoded_hash) = Response 200 content \<and>
    re_search_counter ''10:downloaded'' content = Some n \<and>
    re_search_counter ''8:complete'' content = None \<and>
    re_search_counter ''10:incomplete'' content = None"
  then show "scrape_http_tracker int_max_str_digits requests_get tracker_url info_hash =
        (Inr None,
         [Scraping (scrape_url tracker_url), ResponseLength (length content),
          RawResponse (take 200 content), CouldNotParse])"
    by (simp add: manual_on_200 [where get = requests_get] parse_counters_def)
next
  assume "fst (scrape_http_tracker int_max_str_digits requests_get tracker_url info_hash) = Inr (Some st)"
  from manual_Some [OF this]
  show "\<exists>enc body. hex_to_url_encoded info_hash = Inr enc \<and>
         requests_get (scrape_url tracker_url) (PyStr enc) = Response 200 body \<and>
         (re_search_counter ''8:complete'' body \<noteq> None \<or>
          re_search_counter ''10:incomplete'' body \<noteq> None)" .
qed
text \<open>
  Both parts at concrete responses: \<open>d10:downloadedi100ee\<close> matches the pattern of
  \<open>downloaded\<close> only, and \<^const>\<open>example_response\<close> matches all three.
\<close>

theorem downloaded_alone_is_discarded_witness:
  "re_search_counter ''10:downloaded'' ''d10:downloadedi100ee'' = Some ''100'' \<and>
   re_search_counter ''8:complete'' ''d10:downloadedi100ee'' = None \<and>
   re_search_counter ''10:incomplete'' ''d10:downloadedi100ee'' = None \<and>
   scrape_http_tracker 4300 (tracker_replies ''d10:downloadedi100ee'')
     ''http://t.example/announce'' hazard_hash =
     (Inr None,
      [Scraping ''http://t.example/scrape'', ResponseLength 20,
       RawResponse ''d10:downloadedi100ee'', CouldNotParse]) \<and>
   fst (scrape_http_tracker 4300 (tracker_replies example_response)
     ''http://t.example/announce'' hazard_hash) =
     Inr (Some \<lparr>seeders = 5, leechers = 2, downloads = 100\<rparr>) \<and>
   (\<exists>enc body. hex_to_url_encoded hazard_hash = Inr enc \<and>
      tracker_replies example_response (scrape_url ''http://t.example/announce'') (PyStr enc) =
        Response 200 body \<and>
      (re_search_counter ''8:complete'' body \<noteq> None \<or>
       re_search_counter ''10:incomplete'' body \<noteq> None))"
proof -
  have h: "hex_to_url_encoded hazard_hash = Inr ''AAAAAAAAAAAAAAAAAAAA''" by code_simp
  have g: "tracker_replies c (scrape_url ''http://t.example/announce'')
             (PyStr ''AAAAAAAAAAAAAAAAAAAA'') = Response 200 c" for c
    by (simp add: tracker_replies_def)
  have u: "scrape_url ''http://t.example/announce'' = ''http://t.example/scrape''" by code_simp
  have m: "re_search_counter ''10:downloaded'' ''d10:downloadedi100ee'' = Some ''100'' \<and>
           re_search_counter ''8:complete'' ''d10:downloadedi100ee'' = None \<and>
           re_search_counter ''10:incomplete'' ''d10:downloadedi100ee'' = None"
    by code_simp
  have s: "fst (scrape_http_tracker 4300 (tracker_replies example_response)
     ''http://t.example/announce'' hazard_hash) =
     Inr (Some \<lparr>seeders = 5, leechers = 2, downloads = 100\<rparr>)"
    by code_simp
  note t1 = downloaded_alone_is_discarded [where requests_get = "tracker_replies ''d10:downloadedi100ee''"
      and info_hash = hazard_hash and encoded_hash = "''AAAAAAAAAAAAAAAAAAAA''"
      and tracker_url = "''http://t.example/announce''" and content = "''d10:downloadedi100ee''"
      and n = "''100''" and int_max_str_digits = 4300, THEN conjunct1]
  note t2 = downloaded_alone_is_discarded [where requests_get = "tracker_replies example_response"
      and info_hash = hazard_hash and tracker_url = "''http://t.example/announce''"
      and int_max_str_digits = 4300
      and st = "\<lparr>seeders = 5, leechers = 2, downloads = 100\<rparr>", THEN conjunct2]
  from t1 h g m have 1: "scrape_http_tracker 4300 (tracker_replies ''d10:downloadedi100ee'')
     ''http://t.example/announce'' hazard_hash =
     (Inr None,
      [Scraping ''http://t.example/scrape'', ResponseLength 20,
       RawResponse ''d10:downloadedi100ee'', CouldNotParse])"
    unfolding u by simp
  from t2 s have 2: "\<exists>enc body. hex_to_url_encoded hazard_hash = Inr enc \<and>
      tracker_replies example_response (scrape_url ''http://t.example/announce'') (PyStr enc) =
        Response 200 body \<and>
      (re_search_counter ''8:complete'' body \<noteq> None \<or>
       re_search_counter ''10:incomplete'' body \<noteq> None)"
    by blast
  from m 1 s 2 show ?thesis by blast
qed

section \<open>Percent-encoding of the info hash\<close>

lemma hex_value_upper: "hex_value (hex_upper n) = Some (n mod 16)"
proof -
  have "list_all (\<lambda>m. hex_value (hex_upper m) = Some m) [0..<16]" by code_simp
  then have "\<forall>m<16. hex_value (hex_upper m) = Some m" by (simp add: list_all_iff)
  then have "hex_value (hex_upper (n mod 16)) = Some (n mod 16)" by simp
  then show ?thesis by (simp add: hex_upper_def)
qed

lemma percent_not_safe: "CHR ''%'' \<notin> set always_safe"
  by (simp add: always_safe_def)

lemma percent_decode_plain: "c \<noteq> CHR ''%'' \<Longrightarrow> percent_decode (c # xs) = c # percent_decode xs"
proof (cases xs)
  case Nil then show ?thesis by simp
next
  case (Cons a ys)
  assume "c \<noteq> CHR ''%''"
  then show ?thesis unfolding Cons by (cases ys) simp_all
qed

lemma byte_split: "char_of (16 * (of_char c div 16 mod 16) + of_char c mod (16::nat)) = c"
proof -
  have "(of_char c :: nat) < 16 * 16" by (simp add: of_char_def)
  then have "(of_char c :: nat) div 16 < 16" by (rule less_mult_imp_div_less)
  then have "(of_char c :: nat) div 16 mod 16 = of_char c div 16" by simp
  then have "16 * (of_char c div 16 mod 16) + of_char c mod (16::nat) = of_char c"
    by simp
  then show ?thesis by simp
qed

lemma percent_decode_quote: "percent_decode (quote [] bs) = bs"
proof (induction bs)
  case Nil show ?case by (simp add: quote_def)
next
  case (Cons c bs)
  have q: "quote [] (c # bs) = quote_byte [] c @ quote [] bs" by (simp add: quote_def)
  show ?case
  proof (cases "c \<in> set always_safe")
    case True
    with percent_not_safe have "c \<noteq> CHR ''%''" by auto
    with True Cons show ?thesis by (simp add: q quote_byte_def percent_decode_plain)
  next
    case False
    then show ?thesis using Cons
      by (simp add: q quote_byte_def hex_value_upper byte_split)
  qed
qed

lemma space_not_hex: "is_space c \<Longrightarrow> hex_value c = None"
  by (auto simp: is_space_def hex_value_def)

lemma fromhex_hex:
  "list_all (\<lambda>c. hex_value c \<noteq> None) h \<Longrightarrow> even (length h) \<Longrightarrow>
   \<exists>bs. fromhex h = Inr bs \<and> length bs = length h div 2"
proof (induction h rule: fromhex.induct)
  case 1 show ?case by simp
next
  case (2 c) then show ?case by simp
next
  case (3 c d rest)
  from "3.prems" obtain hh ll where hl: "hex_value c = Some hh" "hex_value d = Some ll"
    and r: "list_all (\<lambda>c. hex_value c \<noteq> None) rest" "even (length rest)"
    by auto
  from hl have ns: "\<not> is_space c" using space_not_hex by fastforce
  from "3.IH"(2) [OF ns refl hl r]
  obtain bs where "fromhex rest = Inr bs" "length bs = length rest div 2" by auto
  with ns hl show ?case by simp
qed

text \<open>
  C9.  For every string of forty hexadecimal digits, \<open>bytes.fromhex\<close> gives twenty
  bytes, \<open>hex_to_url_encoded\<close> gives their percent-encoding, and percent-decoding that
  encoding gives the twenty bytes back.
\<close>

theorem percent_decoding_recovers_hash_bytes:
  assumes "length h = 40" and "\<forall>c \<in> set h. hex_value c \<noteq> None"
  shows "\<exists>bs e. fromhex h = Inr bs \<and> length bs = 20 \<and>
           hex_to_url_encoded h = Inr e \<and> percent_decode e = bs"
proof -
  from assms fromhex_hex [of h] obtain bs where "fromhex h = Inr bs" "length bs = 20"
    by (auto simp: list_all_iff)
  then show ?thesis by (simp add: hex_to_url_encoded_def percent_decode_quote)
qed

text \<open>The theorem at the info hash of the scripts.\<close>

theorem percent_decoding_recovers_hash_bytes_witness:
  "length script_info_hash = 40 \<and>
   list_all (\<lambda>c. hex_value c \<noteq> None) script_info_hash \<and>
   (\<exists>bs e. fromhex script_info_hash = Inr bs \<and> length bs = 20 \<and>
      hex_to_url_encoded script_info_hash = Inr e \<and> percent_decode e = bs) \<and>
   hex_to_url_encoded script_info_hash =
     Inr ''%BA%0E%26uy%FAb%98%17%95%DC%C0Y%FBa%E1%AF%5C%A4%29''"
proof -
  have 1: "length script_info_hash = 40" by code_simp
  have 2: "list_all (\<lambda>c. hex_value c \<noteq> None) script_info_hash" by code_simp
  then have 3: "\<forall>c \<in> set script_info_hash. hex_value c \<noteq> None" by (simp add: list_all_iff)
  have 4: "hex_to_url_encoded script_info_hash =
     Inr ''%BA%0E%26uy%FAb%98%17%95%DC%C0Y%FBa%E1%AF%5C%A4%29''" by code_simp
  from percent_decoding_recovers_hash_bytes [OF 1 3] 1 2 4 show ?thesis by blast
qed

section \<open>Decimal numbers and the two scalar productions\<close>

lemma is_digit_digit_char: "d < 10 \<Longrightarrow> is_digit (digit_char d)"
  by (simp add: is_digit_def digit_char_def less_eq_char_def)

lemma digit_value_digit_char: "d < 10 \<Longrightarrow> digit_value (digit_char d) = d"
  by (simp add: digit_value_def digit_char_def)

lemma digit_char_0: "digit_char 0 = CHR ''0''"
  by (simp only: digit_char_def add_0_right char_of_char)

lemma digit_char_zero: "d < 10 \<Longrightarrow> digit_char d = CHR ''0'' \<longleftrightarrow> d = 0"
proof
  assume "d < 10" "digit_char d = CHR ''0''"
  then have "digit_value (digit_char d) = digit_value CHR ''0''" by simp
  with \<open>d < 10\<close> show "d = 0" by (simp add: digit_value_digit_char) (simp add: digit_value_def)
next
  assume "d = 0" then show "digit_char d = CHR ''0''" by (simp add: digit_char_0)
qed

lemma not_digit_marks:
  "\<not> is_digit CHR ''e''" "\<not> is_digit CHR '':''" "\<not> is_digit CHR ''-''"
  "\<not> is_digit CHR ''i''" "\<not> is_digit CHR ''l''" "\<not> is_digit CHR ''d''"
  by (simp_all add: is_digit_def)

lemma show_nat_digits: "\<forall>c \<in> set (show_nat n). is_digit c"
proof (induction n rule: show_nat.induct)
  case (1 n)
  show ?case
  proof (cases "n < 10")
    case True then show ?thesis by (subst show_nat.simps) (simp add: is_digit_digit_char)
  next
    case False
    with 1 show ?thesis by (subst show_nat.simps) (simp add: is_digit_digit_char)
  qed
qed

lemma show_nat_not_Nil: "show_nat n \<noteq> []"
  by (subst show_nat.simps) simp

lemma decimal_value_snoc: "decimal_value (ds @ [c]) = 10 * decimal_value ds + digit_value c"
  by (simp add: decimal_value_def)

lemma decimal_value_show_nat: "decimal_value (show_nat n) = n"
proof (induction n rule: show_nat.induct)
  case (1 n)
  show ?case
  proof (cases "n < 10")
    case True
    then show ?thesis
      by (subst show_nat.simps) (simp add: decimal_value_def digit_value_digit_char)
  next
    case False
    with 1 show ?thesis
      by (subst show_nat.simps) (simp add: decimal_value_snoc digit_value_digit_char)
  qed
qed

lemma hd_show_nat: "0 < n \<Longrightarrow> hd (show_nat n) \<noteq> CHR ''0''"
proof (induction n rule: show_nat.induct)
  case (1 n)
  show ?case
  proof (cases "n < 10")
    case True
    with "1.prems" show ?thesis by (subst show_nat.simps) (simp add: digit_char_zero)
  next
    case False
    then have "0 < n div 10" by simp
    with 1 False show ?thesis by (subst show_nat.simps) (simp add: show_nat_not_Nil)
  qed
qed

lemma show_nat_zero: "show_nat 0 = ''0''"
  by (subst show_nat.simps) (simp add: digit_char_0)

lemma show_nat_no_leading_zero: "\<not> (length (show_nat n) > 1 \<and> hd (show_nat n) = CHR ''0'')"
  by (cases "n = 0") (simp_all add: show_nat_zero hd_show_nat)

lemma show_nat_eq_zero: "show_nat n = ''0'' \<Longrightarrow> n = 0"
proof -
  assume "show_nat n = ''0''"
  then have "decimal_value (show_nat n) = decimal_value ''0''" by simp
  then show ?thesis by (simp add: decimal_value_show_nat) (simp add: decimal_value_def digit_value_def)
qed

lemma takeWhile_digits:
  "\<forall>c \<in> set ds. is_digit c \<Longrightarrow> \<not> is_digit x \<Longrightarrow> takeWhile is_digit (ds @ x # rest) = ds"
  by (simp add: takeWhile_append2)

lemma dropWhile_digits:
  "\<forall>c \<in> set ds. is_digit c \<Longrightarrow> \<not> is_digit x \<Longrightarrow> dropWhile is_digit (ds @ x # rest) = x # rest"
  by (simp add: dropWhile_append2)

lemma read_int_show_int:
  "read_int pos (show_int i @ CHR ''e'' # rest) = Inr (i, length (show_int i) + 1)"
proof (cases "i < 0")
  case True
  define m where "m = nat (- i)"
  with True have m: "0 < m" "- int m = i" by simp_all
  have s: "show_int i = CHR ''-'' # show_nat m" using True by (simp add: show_int_def m_def)
  have tw: "takeWhile is_digit (show_nat m @ CHR ''e'' # rest) = show_nat m"
    by (rule takeWhile_digits) (simp_all add: show_nat_digits not_digit_marks)
  have dw: "dropWhile is_digit (show_nat m @ CHR ''e'' # rest) = CHR ''e'' # rest"
    by (rule dropWhile_digits) (simp_all add: show_nat_digits not_digit_marks)
  have nz: "show_nat m \<noteq> ''0''" using show_nat_eq_zero [of m] m(1) by auto
  have "read_int pos ((CHR ''-'' # show_nat m) @ CHR ''e'' # rest) =
          Inr (- int m, length (CHR ''-'' # show_nat m) + 1)"
    using show_nat_no_leading_zero [of m] nz
    by (simp add: read_int_def Let_def tw dw show_nat_not_Nil decimal_value_show_nat)
  then show ?thesis unfolding s m(2) .
next
  case False
  define m where "m = nat i"
  with False have m: "int m = i" by simp
  have s: "show_int i = show_nat m" using False by (simp add: show_int_def m_def)
  obtain c cs where cs: "show_nat m = c # cs" using show_nat_not_Nil [of m] by (cases "show_nat m") auto
  have "is_digit c" using show_nat_digits [of m] cs by simp
  then have "c \<noteq> CHR ''-''" using not_digit_marks by auto
  then have np: "\<not> prefix ''-'' (show_nat m @ CHR ''e'' # rest)" by (simp add: cs)
  have tw: "takeWhile is_digit (show_nat m @ CHR ''e'' # rest) = show_nat m"
    by (rule takeWhile_digits) (simp_all add: show_nat_digits not_digit_marks)
  have dw: "dropWhile is_digit (show_nat m @ CHR ''e'' # rest) = CHR ''e'' # rest"
    by (rule dropWhile_digits) (simp_all add: show_nat_digits not_digit_marks)
  have "read_int pos (show_nat m @ CHR ''e'' # rest) = Inr (int m, length (show_nat m) + 1)"
    using show_nat_no_leading_zero [of m]
    by (simp add: read_int_def Let_def np tw dw show_nat_not_Nil decimal_value_show_nat)
  then show ?thesis unfolding s m .
qed

lemma read_bytes_encoded:
  assumes "show_nat (length b) = c # ds"
  shows "read_bytes pos c (ds @ CHR '':'' # b @ rest) = Inr (b, length ds + 1 + length b)"
proof -
  have dg: "\<forall>x \<in> set ds. is_digit x" using show_nat_digits [of "length b"] assms by simp
  have tw: "takeWhile is_digit (ds @ CHR '':'' # b @ rest) = ds"
    by (rule takeWhile_digits) (simp_all add: dg not_digit_marks)
  have dw: "dropWhile is_digit (ds @ CHR '':'' # b @ rest) = CHR '':'' # b @ rest"
    by (rule dropWhile_digits) (simp_all add: dg not_digit_marks)
  have lz: "\<not> (ds \<noteq> [] \<and> c = CHR ''0'')"
    using show_nat_no_leading_zero [of "length b"] assms by (cases ds) auto
  have dv: "decimal_value (c # ds) = length b"
    using decimal_value_show_nat [of "length b"] assms by simp
  show ?thesis using lz by (simp add: read_bytes_def Let_def tw dw dv)
qed

section \<open>Single steps of the decoding loop\<close>

lemma run_Cons: "run cfg st pos (c # cs) = finish cfg (step cfg st pos c cs) (pos + 1) cs"
  by (simp add: finish_def split: step_result.split)

declare run.simps(2) [simp del]

lemma finish_deliver:
  "\<not> expects_key st \<Longrightarrow>
   finish cfg (deliver v st p n) q cs = finish cfg (deliver v st 0 0) (q + n) (drop n cs)"
  by (cases "(v, st, p, n)" rule: deliver.cases) (simp_all add: finish_def)

lemma finish_Continue: "finish cfg (Continue st n) q cs = run cfg st (q + n) (drop n cs)"
  by (simp add: finish_def)

lemma run_Integer:
  assumes "\<not> expects_key st"
  shows "run cfg st pos (encode (Integer i) @ rest) =
           finish cfg (deliver (Integer i) st 0 0) (pos + length (encode (Integer i))) rest"
proof -
  have "step cfg st pos CHR ''i'' (show_int i @ CHR ''e'' # rest) =
          deliver (Integer i) st pos (length (show_int i) + 1)"
    using assms by (simp add: step_def read_int_show_int)
  then have "run cfg st pos (encode (Integer i) @ rest) =
      finish cfg (deliver (Integer i) st pos (length (show_int i) + 1)) (pos + 1)
        (show_int i @ CHR ''e'' # rest)"
    by (simp add: run_Cons)
  also have "\<dots> = finish cfg (deliver (Integer i) st 0 0) (pos + 1 + (length (show_int i) + 1))
        (drop (length (show_int i) + 1) (show_int i @ CHR ''e'' # rest))"
    by (rule finish_deliver [OF assms])
  finally show ?thesis by simp
qed

lemma show_nat_Cons: obtains c ds where "show_nat n = c # ds" "is_digit c" "c \<noteq> CHR ''e''" "c \<noteq> CHR ''i''"
proof -
  obtain c ds where cs: "show_nat n = c # ds" using show_nat_not_Nil [of n] by (cases "show_nat n") auto
  have "is_digit c" using show_nat_digits [of n] cs by simp
  with cs that not_digit_marks show ?thesis by metis
qed

lemma run_ByteString:
  assumes "\<not> expects_key st"
  shows "run cfg st pos (encode (ByteString b) @ rest) =
           finish cfg (deliver (ByteString b) st 0 0) (pos + length (encode (ByteString b))) rest"
proof -
  obtain c ds where cs: "show_nat (length b) = c # ds" and d: "is_digit c" "c \<noteq> CHR ''e''" "c \<noteq> CHR ''i''"
    by (rule show_nat_Cons)
  have "step cfg st pos c (ds @ CHR '':'' # b @ rest) =
          deliver (ByteString b) st pos (length ds + 1 + length b)"
    using assms d by (simp add: step_def read_bytes_encoded [OF cs])
  then have "run cfg st pos (encode (ByteString b) @ rest) =
      finish cfg (deliver (ByteString b) st pos (length ds + 1 + length b)) (pos + 1)
        (ds @ CHR '':'' # b @ rest)"
    by (simp add: cs run_Cons)
  also have "\<dots> = finish cfg (deliver (ByteString b) st 0 0) (pos + 1 + (length ds + 1 + length b))
        (drop (length ds + 1 + length b) (ds @ CHR '':'' # b @ rest))"
    by (rule finish_deliver [OF assms])
  finally show ?thesis by (simp add: cs)
qed

lemma run_key:
  "run cfg (DictFrame acc None # st) pos (encode (ByteString k) @ rest) =
     (if k \<in> set (map fst acc) then Inl (SyntaxError pos)
      else run cfg (DictFrame acc (Some k) # st) (pos + length (encode (ByteString k))) rest)"
proof -
  obtain c ds where cs: "show_nat (length k) = c # ds" and d: "is_digit c" "c \<noteq> CHR ''e''" "c \<noteq> CHR ''i''"
    by (rule show_nat_Cons)
  have "step cfg (DictFrame acc None # st) pos c (ds @ CHR '':'' # k @ rest) =
          (if k \<in> set (map fst acc) then Failed (SyntaxError pos)
           else Continue (DictFrame acc (Some k) # st) (length ds + 1 + length k))"
    using d by (simp add: step_def read_bytes_encoded [OF cs])
  then show ?thesis
    by (simp add: cs run_Cons finish_def)
qed

lemma run_open_list:
  "\<not> expects_key st \<Longrightarrow>
   run cfg st pos (CHR ''l'' # cs) =
     (if length st < max_depth cfg then run cfg (ListFrame [] # st) (pos + 1) cs
      else Inl (StructureError pos))"
  by (simp add: run_Cons step_def finish_def not_digit_marks)

lemma run_open_dict:
  "\<not> expects_key st \<Longrightarrow>
   run cfg st pos (CHR ''d'' # cs) =
     (if length st < max_depth cfg then run cfg (DictFrame [] None # st) (pos + 1) cs
      else Inl (StructureError pos))"
  by (simp add: run_Cons step_def finish_def not_digit_marks)

lemma run_close_list:
  "\<not> expects_key st \<Longrightarrow>
   run cfg (ListFrame items # st) pos (CHR ''e'' # rest) =
     finish cfg (deliver (List items) st 0 0) (pos + 1) rest"
  using finish_deliver [of st cfg "List items" pos 0 "pos + 1" rest]
  by (simp add: run_Cons step_def)

lemma run_close_dict:
  "\<not> expects_key st \<Longrightarrow>
   run cfg (DictFrame es None # st) pos (CHR ''e'' # rest) =
     finish cfg (deliver (Dictionary es) st 0 0) (pos + 1) rest"
  using finish_deliver [of st cfg "Dictionary es" pos 0 "pos + 1" rest]
  by (simp add: run_Cons step_def)

section \<open>Decoding what the encoder wrote\<close>

lemma fold_max_ge: "(x::nat) \<in> set xs \<Longrightarrow> x \<le> fold max xs a"
  by (simp add: Max.set_eq_fold [symmetric])

lemma depth_item: "v \<in> set vs \<Longrightarrow> Suc (depth v) \<le> depth (List vs)"
  by (simp add: fold_max_ge)

lemma depth_entry: "e \<in> set es \<Longrightarrow> Suc (depth (snd e)) \<le> depth (Dictionary es)"
  by (simp add: fold_max_ge)

lemma insort_key_last:
  "\<forall>x \<in> set acc. fst x < (k::string) \<Longrightarrow> insort_key fst (k, v) acc = acc @ [(k, v)]"
  by (induction acc) (auto simp: not_le)

lemma sort_key_strict: "sorted_wrt (<) (map fst es) \<Longrightarrow> sort_key fst es = (es :: (string \<times> 'a) list)"
  by (rule sort_key_id_if_sorted) (simp add: strict_sorted_imp_sorted)

lemma run_items:
  assumes IH: "\<And>v st pos rest. v \<in> set vs \<Longrightarrow> key_ordered v \<Longrightarrow> \<not> expects_key st \<Longrightarrow>
                 length st + depth v \<le> max_depth cfg \<Longrightarrow>
                 run cfg st pos (encode v @ rest) =
                   finish cfg (deliver v st 0 0) (pos + length (encode v)) rest"
    and wf: "\<forall>v \<in> set vs. key_ordered v \<and> Suc (length st) + depth v \<le> max_depth cfg"
    and st: "\<not> expects_key st"
  shows "run cfg (ListFrame items # st) pos (concat (map encode vs) @ CHR ''e'' # rest) =
           finish cfg (deliver (List (items @ vs)) st 0 0)
             (pos + length (concat (map encode vs)) + 1) rest"
  using IH wf
proof (induction vs arbitrary: items pos)
  case Nil
  show ?case using run_close_list [OF st] by simp
next
  case (Cons v vs)
  have "run cfg (ListFrame items # st) pos (encode v @ concat (map encode vs) @ CHR ''e'' # rest) =
          finish cfg (deliver v (ListFrame items # st) 0 0) (pos + length (encode v))
            (concat (map encode vs) @ CHR ''e'' # rest)"
    by (rule Cons.prems(1)) (use Cons.prems(2) in simp_all)
  also have "\<dots> = run cfg (ListFrame (items @ [v]) # st) (pos + length (encode v))
                     (concat (map encode vs) @ CHR ''e'' # rest)"
    by (simp add: finish_Continue)
  also have "\<dots> = finish cfg (deliver (List ((items @ [v]) @ vs)) st 0 0)
             (pos + length (encode v) + length (concat (map encode vs)) + 1) rest"
    by (rule Cons.IH) (use Cons.prems in simp_all)
  finally show ?case by (simp add: add.assoc)
qed

lemma run_entries:
  assumes IH: "\<And>e st pos rest. e \<in> set es \<Longrightarrow> key_ordered (snd e) \<Longrightarrow> \<not> expects_key st \<Longrightarrow>
                 length st + depth (snd e) \<le> max_depth cfg \<Longrightarrow>
                 run cfg st pos (encode (snd e) @ rest) =
                   finish cfg (deliver (snd e) st 0 0) (pos + length (encode (snd e))) rest"
    and wf: "\<forall>e \<in> set es. key_ordered (snd e) \<and> Suc (length st) + depth (snd e) \<le> max_depth cfg"
    and sorted: "sorted_wrt (<) (map fst (acc @ es))"
    and st: "\<not> expects_key st"
  shows "run cfg (DictFrame acc None # st) pos (concat (map encode_entry es) @ CHR ''e'' # rest) =
           finish cfg (deliver (Dictionary (acc @ es)) st 0 0)
             (pos + length (concat (map encode_entry es)) + 1) rest"
  using IH wf sorted
proof (induction es arbitrary: acc pos)
  case Nil
  show ?case using run_close_dict [OF st] by simp
next
  case (Cons e es)
  obtain k v where e: "e = (k, v)" by (cases e)
  let ?tail = "concat (map encode_entry es) @ CHR ''e'' # rest"
  from Cons.prems(3) have lt: "\<forall>x \<in> set acc. fst x < k"
    by (auto simp: e sorted_wrt_append)
  then have fresh: "k \<notin> set (map fst acc)" by auto
  have "run cfg (DictFrame acc None # st) pos (encode (ByteString k) @ encode v @ ?tail) =
          run cfg (DictFrame acc (Some k) # st) (pos + length (encode (ByteString k))) (encode v @ ?tail)"
    using fresh by (simp only: run_key if_False)
  also have "\<dots> = finish cfg (deliver v (DictFrame acc (Some k) # st) 0 0)
                     (pos + length (encode (ByteString k)) + length (encode v)) ?tail"
    using Cons.prems(1) [of e "DictFrame acc (Some k) # st"] Cons.prems(2) by (simp add: e)
  also have "\<dots> = run cfg (DictFrame (acc @ [(k, v)]) None # st)
                     (pos + length (encode (ByteString k)) + length (encode v)) ?tail"
    by (simp add: finish_Continue insort_key_last [OF lt])
  also have "\<dots> = finish cfg (deliver (Dictionary ((acc @ [(k, v)]) @ es)) st 0 0)
             (pos + length (encode (ByteString k)) + length (encode v) +
              length (concat (map encode_entry es)) + 1) rest"
    by (rule Cons.IH) (use Cons.prems in \<open>simp_all add: e\<close>)
  finally show ?case by (simp add: e add.assoc)
qed

lemma run_encode:
  "key_ordered v \<Longrightarrow> \<not> expects_key st \<Longrightarrow> length st + depth v \<le> max_depth cfg \<Longrightarrow>
   run cfg st pos (encode v @ rest) =
     finish cfg (deliver v st 0 0) (pos + length (encode v)) rest"
proof (induction v arbitrary: st pos rest)
  case (Integer i)
  then show ?case by (rule_tac run_Integer)
next
  case (ByteString b)
  then show ?case by (rule_tac run_ByteString)
next
  case (List vs)
  from List.prems have room: "length st < max_depth cfg" by simp
  have items: "\<forall>v \<in> set vs. key_ordered v \<and> Suc (length st) + depth v \<le> max_depth cfg"
  proof
    fix v assume v: "v \<in> set vs"
    with List.prems(1) have "key_ordered v" by (simp add: list_all_iff)
    moreover from depth_item [OF v] List.prems(3) have "Suc (length st) + depth v \<le> max_depth cfg"
      by simp
    ultimately show "key_ordered v \<and> Suc (length st) + depth v \<le> max_depth cfg" ..
  qed
  have "run cfg st pos (encode (List vs) @ rest) =
          run cfg (ListFrame [] # st) (pos + 1) (concat (map encode vs) @ CHR ''e'' # rest)"
    using room List.prems(2) by (simp add: run_open_list)
  also have "\<dots> = finish cfg (deliver (List ([] @ vs)) st 0 0)
                     (pos + 1 + length (concat (map encode vs)) + 1) rest"
    by (rule run_items) (use List.IH items List.prems(2) in auto)
  finally show ?case by simp
next
  case (Dictionary es)
  from Dictionary.prems have room: "length st < max_depth cfg" by simp
  from Dictionary.prems(1) have sorted: "sorted_wrt (<) (map fst es)" by simp
  have entries: "\<forall>e \<in> set es. key_ordered (snd e) \<and> Suc (length st) + depth (snd e) \<le> max_depth cfg"
  proof
    fix e assume e: "e \<in> set es"
    with Dictionary.prems(1) have "key_ordered (snd e)" by (simp add: list_all_iff)
    moreover from depth_entry [OF e] Dictionary.prems(3)
    have "Suc (length st) + depth (snd e) \<le> max_depth cfg" by simp
    ultimately show "key_ordered (snd e) \<and> Suc (length st) + depth (snd e) \<le> max_depth cfg" ..
  qed
  have IH: "run cfg st' pos' (encode (snd e) @ rest') =
              finish cfg (deliver (snd e) st' 0 0) (pos' + length (encode (snd e))) rest'"
    if "e \<in> set es" "key_ordered (snd e)" "\<not> expects_key st'"
       "length st' + depth (snd e) \<le> max_depth cfg" for e st' pos' rest'
    using Dictionary.IH [of e "snd e" st' pos' rest'] that by (cases e) simp
  have "run cfg st pos (encode (Dictionary es) @ rest) =
          run cfg (DictFrame [] None # st) (pos + 1) (concat (map encode_entry es) @ CHR ''e'' # rest)"
    using room Dictionary.prems(2) by (simp add: run_open_dict sort_key_strict [OF sorted])
  also have "\<dots> = finish cfg (deliver (Dictionary ([] @ es)) st 0 0)
                     (pos + 1 + length (concat (map encode_entry es)) + 1) rest"
    by (rule run_entries) (use IH entries sorted Dictionary.prems(2) in auto)
  finally show ?case by (simp add: sort_key_strict [OF sorted])
qed

lemma decode_all_encode_ordered:
  assumes "key_ordered v" and "depth v \<le> max_depth cfg"
  shows "decode_all cfg (encode v) = Inr v"
proof -
  have "run cfg [] 0 (encode v @ []) = finish cfg (deliver v [] 0 0) (0 + length (encode v)) []"
    by (rule run_encode) (use assms in simp_all)
  then show ?thesis by (simp add: decode_all_def decode_def finish_def)
qed

text \<open>The encoder writes a tree and the tree in key order alike.\<close>

lemma insort_key_map:
  "(\<And>x. g (f x) = g x) \<Longrightarrow> insort_key g (f x) (map f ys) = map f (insort_key g x ys)"
  by (induction ys) simp_all

lemma sort_key_map:
  "(\<And>x. g (f x) = g x) \<Longrightarrow> sort_key g (map f xs) = map f (sort_key g xs)"
  by (induction xs) (simp_all add: insort_key_map)

lemma sort_key_twice: "sort_key f (sort_key f xs) = sort_key f xs"
  by (rule sort_key_id_if_sorted) simp

lemma encode_in_key_order: "encode (in_key_order v) = encode v"
proof (induction v)
  case (List vs)
  then show ?case by (simp add: comp_def cong: map_cong)
next
  case (Dictionary es)
  let ?f = "\<lambda>e. (fst e, in_key_order (snd e))"
  have s: "sort_key fst (map ?f xs) = map ?f (sort_key fst xs)" for xs
    by (rule sort_key_map) simp
  have m: "map encode_entry (map ?f (sort_key fst es)) = map encode_entry (sort_key fst es)"
    unfolding map_map
  proof (rule map_cong [OF refl])
    fix e assume "e \<in> set (sort_key fst es)"
    then have "e \<in> set es" by simp
    with Dictionary.IH [of e "snd e"] have "encode (in_key_order (snd e)) = encode (snd e)"
      by (cases e) simp
    then show "(encode_entry \<circ> ?f) e = encode_entry e" by simp
  qed
  have "encode (in_key_order (Dictionary es)) =
          CHR ''d'' # concat (map encode_entry (map ?f (sort_key fst es))) @ ''e''"
    by (simp only: in_key_order.simps encode.simps sort_key_twice s)
  also have "\<dots> = encode (Dictionary es)"
    using arg_cong [OF m, of concat] by simp
  finally show ?case .
qed (simp_all)

lemma key_ordered_in_key_order: "well_formed v \<Longrightarrow> key_ordered (in_key_order v)"
proof (induction v)
  case (List vs)
  then show ?case by (auto simp: list_all_iff)
next
  case (Dictionary es)
  let ?f = "\<lambda>e. (fst e, in_key_order (snd e))"
  have mf: "map fst (map ?f es) = map fst es" by (simp add: comp_def)
  have d: "distinct (map fst (map ?f es))" unfolding mf using Dictionary.prems by simp
  have "sorted (map fst (sort_key fst (map ?f es)))" by simp
  moreover have "distinct (map fst (sort_key fst (map ?f es)))"
    using d by (simp add: distinct_map del: map_map)
  ultimately have "sorted_wrt (<) (map fst (sort_key fst (map ?f es)))"
    by (simp only: strict_sorted_iff)
  moreover have "key_ordered (in_key_order (snd e))" if "e \<in> set es" for e
    using Dictionary.IH [of e "snd e"] Dictionary.prems that by (cases e) (auto simp: list_all_iff)
  ultimately show ?case by (simp add: list_all_iff)
qed (simp_all)

lemma depth_in_key_order: "depth (in_key_order v) = depth v"
proof (induction v)
  case (List vs)
  then show ?case by (simp add: comp_def cong: map_cong)
next
  case (Dictionary es)
  let ?f = "\<lambda>e. (fst e, in_key_order (snd e))"
  let ?d = "\<lambda>e. depth (snd e)"
  have IH: "depth (in_key_order (snd e)) = depth (snd e)" if "e \<in> set es" for e
    using Dictionary.IH [of e "snd e"] that by (cases e) simp
  have "set (map ?d (sort_key fst (map ?f es))) = ?d ` set (map ?f es)" by simp
  also have "\<dots> = (\<lambda>e. depth (in_key_order (snd e))) ` set es" by (simp add: image_image)
  also have "\<dots> = ?d ` set es" by (rule image_cong [OF refl]) (rule IH)
  finally have "set (map ?d (sort_key fst (map ?f es))) = set (map ?d es)" by simp
  then have "Max (set (0 # map ?d (sort_key fst (map ?f es)))) = Max (set (0 # map ?d es))"
    by (simp only: list.set)
  then show ?case by (simp only: in_key_order.simps depth.simps Max.set_eq_fold)
qed (simp_all)

lemma in_key_order_id: "key_ordered v \<Longrightarrow> in_key_order v = v"
proof (induction v)
  case (List vs)
  then have "map in_key_order vs = vs" by (intro map_idI) (auto simp: list_all_iff)
  then show ?case by simp
next
  case (Dictionary es)
  have "(fst e, in_key_order (snd e)) = e" if "e \<in> set es" for e
    using Dictionary.IH [of e "snd e"] Dictionary.prems that by (cases e) (auto simp: list_all_iff)
  then have "map (\<lambda>e. (fst e, in_key_order (snd e))) es = es" by (intro map_idI)
  with Dictionary.prems show ?case by (simp add: sort_key_strict)
qed (simp_all)

text \<open>
  C6, as the decoder has it.  For every well-formed tree (in every dictionary the keys are
  unique) whose nesting depth does not exceed the configured maximum, decoding the
  encoding gives the tree back, the entries of every dictionary in key order; for a tree
  that lists them in that order it is the tree itself.
\<close>

theorem decode_all_encode:
  assumes "well_formed v" and "depth v \<le> max_depth cfg"
  shows "decode_all cfg (encode v) = Inr (in_key_order v) \<and>
         (key_ordered v \<longrightarrow> decode_all cfg (encode v) = Inr v)"
proof -
  have "decode_all cfg (encode (in_key_order v)) = Inr (in_key_order v)"
    by (rule decode_all_encode_ordered)
       (use assms in \<open>simp_all add: key_ordered_in_key_order depth_in_key_order\<close>)
  then show ?thesis by (simp add: encode_in_key_order in_key_order_id)
qed

text \<open>
  The theorem at the dictionary of the specification's example, with its entries in key
  order and the other way round.
\<close>

theorem decode_all_encode_witness:
  "well_formed spec_example_tree \<and> key_ordered spec_example_tree \<and>
   depth spec_example_tree \<le> max_depth default_config \<and>
   encode spec_example_tree = ''d3:bar4:spam3:fooi42ee'' \<and>
   decode_all default_config ''d3:bar4:spam3:fooi42ee'' = Inr spec_example_tree \<and>
   well_formed (Dictionary [(''foo'', Integer 42), (''bar'', ByteString ''spam'')]) \<and>
   encode (Dictionary [(''foo'', Integer 42), (''bar'', ByteString ''spam'')]) =
     ''d3:bar4:spam3:fooi42ee'' \<and>
   in_key_order (Dictionary [(''foo'', Integer 42), (''bar'', ByteString ''spam'')]) =
     spec_example_tree"
proof -
  let ?u = "Dictionary [(''foo'', Integer 42), (''bar'', ByteString ''spam'')]"
  have 1: "well_formed spec_example_tree" by code_simp
  have 2: "depth spec_example_tree \<le> max_depth default_config" by code_simp
  have 3: "encode spec_example_tree = ''d3:bar4:spam3:fooi42ee''" by code_simp
  have 4: "key_ordered spec_example_tree" by code_simp
  have 5: "well_formed ?u" by code_simp
  have 6: "encode ?u = ''d3:bar4:spam3:fooi42ee''" by code_simp
  have 7: "in_key_order ?u = spec_example_tree" by code_simp
  have 8: "depth ?u \<le> max_depth default_config" by code_simp
  have a: "decode_all default_config ''d3:bar4:spam3:fooi42ee'' = Inr spec_example_tree"
    using decode_all_encode [OF 1 2] 4 unfolding 3 by blast
  have b: "decode_all default_config ''d3:bar4:spam3:fooi42ee'' = Inr (in_key_order ?u)"
    using decode_all_encode [OF 5 8] unfolding 6 by blast
  from 1 4 2 3 a b 5 6 7 show ?thesis by blast
qed

text \<open>
  C6 as stated fails: the 65 nested lists of \<^term>\<open>nested_lists 64\<close> are a well-formed tree
  (it has no dictionary at all), and under the default maximum depth of 64 decoding their
  encoding is a \<open>StructureError\<close> at offset 64, the 65th opening \<open>l\<close>.
\<close>

theorem round_trip_counterexample:
  "well_formed (nested_lists 64) \<and> key_ordered (nested_lists 64) \<and>
   decode_all default_config (encode (nested_lists 64)) = Inl (StructureError 64)"
  by code_simp

section \<open>Decoding a document in any key order\<close>

text \<open>
  The encoder writes the document of the tree in key order, and the decoder reads the
  document of a tree with unique keys, in whatever order the keys are written, as the
  tree in key order.
\<close>

lemma encode_document: "encode v = document (in_key_order v)"
proof (induction v)
  case (List vs)
  then show ?case by (simp add: comp_def cong: map_cong)
next
  case (Dictionary es)
  have "map encode_entry (sort_key fst es) =
        map (document_entry \<circ> entry_in_key_order) (sort_key fst es)"
  proof (rule map_cong [OF refl])
    fix e assume "e \<in> set (sort_key fst es)"
    then have "e \<in> set es" by simp
    with Dictionary.IH [of e "snd e"] have "encode (snd e) = document (in_key_order (snd e))"
      by (cases e) simp
    then show "encode_entry e = (document_entry \<circ> entry_in_key_order) e" by simp
  qed
  then have "concat (map encode_entry (sort_key fst es)) =
        concat (map document_entry (map entry_in_key_order (sort_key fst es)))"
    by (simp only: map_map)
  moreover have "sort_key fst (map entry_in_key_order es) = map entry_in_key_order (sort_key fst es)"
    by (rule sort_key_map) simp
  ultimately show ?case by (simp only: encode.simps in_key_order.simps document.simps)
qed (simp_all)

lemma run_document_items:
  assumes IH: "\<And>v st pos rest. v \<in> set vs \<Longrightarrow> well_formed v \<Longrightarrow> \<not> expects_key st \<Longrightarrow>
                 length st + depth v \<le> max_depth cfg \<Longrightarrow>
                 run cfg st pos (document v @ rest) =
                   finish cfg (deliver (in_key_order v) st 0 0) (pos + length (document v)) rest"
    and wf: "\<forall>v \<in> set vs. well_formed v \<and> Suc (length st) + depth v \<le> max_depth cfg"
    and st: "\<not> expects_key st"
  shows "run cfg (ListFrame items # st) pos (concat (map document vs) @ CHR ''e'' # rest) =
           finish cfg (deliver (List (items @ map in_key_order vs)) st 0 0)
             (pos + length (concat (map document vs)) + 1) rest"
  using IH wf
proof (induction vs arbitrary: items pos)
  case Nil
  show ?case using run_close_list [OF st] by simp
next
  case (Cons v vs)
  have "run cfg (ListFrame items # st) pos (document v @ concat (map document vs) @ CHR ''e'' # rest) =
          finish cfg (deliver (in_key_order v) (ListFrame items # st) 0 0) (pos + length (document v))
            (concat (map document vs) @ CHR ''e'' # rest)"
    by (rule Cons.prems(1)) (use Cons.prems(2) in simp_all)
  also have "\<dots> = run cfg (ListFrame (items @ [in_key_order v]) # st) (pos + length (document v))
                     (concat (map document vs) @ CHR ''e'' # rest)"
    by (simp add: finish_Continue)
  also have "\<dots> = finish cfg (deliver (List ((items @ [in_key_order v]) @ map in_key_order vs)) st 0 0)
             (pos + length (document v) + length (concat (map document vs)) + 1) rest"
    by (rule Cons.IH) (use Cons.prems in simp_all)
  finally show ?case by (simp add: add.assoc)
qed

lemma run_document_entries:
  assumes IH: "\<And>e st pos rest. e \<in> set es \<Longrightarrow> well_formed (snd e) \<Longrightarrow> \<not> expects_key st \<Longrightarrow>
                 length st + depth (snd e) \<le> max_depth cfg \<Longrightarrow>
                 run cfg st pos (document (snd e) @ rest) =
                   finish cfg (deliver (in_key_order (snd e)) st 0 0)
                     (pos + length (document (snd e))) rest"
    and wf: "\<forall>e \<in> set es. well_formed (snd e) \<and> Suc (length st) + depth (snd e) \<le> max_depth cfg"
    and keys: "distinct (map fst es)" "set (map fst es) \<inter> set (map fst acc) = {}"
    and st: "\<not> expects_key st"
  shows "run cfg (DictFrame acc None # st) pos (concat (map document_entry es) @ CHR ''e'' # rest) =
           finish cfg
             (deliver (Dictionary (fold (insort_key fst) (map entry_in_key_order es) acc)) st 0 0)
             (pos + length (concat (map document_entry es)) + 1) rest"
  using IH wf keys
proof (induction es arbitrary: acc pos)
  case Nil
  show ?case using run_close_dict [OF st] by simp
next
  case (Cons e es)
  obtain k v where e: "e = (k, v)" by (cases e)
  let ?tail = "concat (map document_entry es) @ CHR ''e'' # rest"
  let ?kb = "encode (ByteString k)"
  from Cons.prems(4) have fresh: "k \<notin> set (map fst acc)" by (auto simp: e)
  have "run cfg (DictFrame acc None # st) pos (?kb @ document v @ ?tail) =
          run cfg (DictFrame acc (Some k) # st) (pos + length ?kb) (document v @ ?tail)"
    using fresh by (simp only: run_key if_False)
  also have "\<dots> = finish cfg (deliver (in_key_order v) (DictFrame acc (Some k) # st) 0 0)
                     (pos + length ?kb + length (document v)) ?tail"
    using Cons.prems(1) [of e "DictFrame acc (Some k) # st"] Cons.prems(2) by (simp add: e)
  also have "\<dots> = run cfg (DictFrame (insort_key fst (k, in_key_order v) acc) None # st)
                     (pos + length ?kb + length (document v)) ?tail"
    by (simp add: finish_Continue)
  also have "\<dots> = finish cfg
             (deliver (Dictionary (fold (insort_key fst) (map entry_in_key_order es)
                 (insort_key fst (k, in_key_order v) acc))) st 0 0)
             (pos + length ?kb + length (document v) +
              length (concat (map document_entry es)) + 1) rest"
  proof (rule Cons.IH)
    show "set (map fst es) \<inter> set (map fst (insort_key fst (k, in_key_order v) acc)) = {}"
      using Cons.prems(3,4) by (auto simp: e set_insort_key)
  qed (use Cons.prems in \<open>simp_all add: e\<close>)
  finally show ?case by (simp add: e add.assoc)
qed

lemma run_document:
  "well_formed v \<Longrightarrow> \<not> expects_key st \<Longrightarrow> length st + depth v \<le> max_depth cfg \<Longrightarrow>
   run cfg st pos (document v @ rest) =
     finish cfg (deliver (in_key_order v) st 0 0) (pos + length (document v)) rest"
proof (induction v arbitrary: st pos rest)
  case (Integer i)
  then show ?case using run_Integer [of st cfg pos i rest] by simp
next
  case (ByteString b)
  then show ?case using run_ByteString [of st cfg pos b rest] by simp
next
  case (List vs)
  from List.prems have room: "length st < max_depth cfg" by simp
  have items: "\<forall>v \<in> set vs. well_formed v \<and> Suc (length st) + depth v \<le> max_depth cfg"
  proof
    fix v assume v: "v \<in> set vs"
    with List.prems(1) have "well_formed v" by (simp add: list_all_iff)
    moreover from depth_item [OF v] List.prems(3) have "Suc (length st) + depth v \<le> max_depth cfg"
      by simp
    ultimately show "well_formed v \<and> Suc (length st) + depth v \<le> max_depth cfg" ..
  qed
  have "run cfg st pos (document (List vs) @ rest) =
          run cfg (ListFrame [] # st) (pos + 1) (concat (map document vs) @ CHR ''e'' # rest)"
    using room List.prems(2) by (simp add: run_open_list)
  also have "\<dots> = finish cfg (deliver (List ([] @ map in_key_order vs)) st 0 0)
                     (pos + 1 + length (concat (map document vs)) + 1) rest"
    by (rule run_document_items) (use List.IH items List.prems(2) in auto)
  finally show ?case by simp
next
  case (Dictionary es)
  from Dictionary.prems have room: "length st < max_depth cfg" by simp
  from Dictionary.prems(1) have keys: "distinct (map fst es)" by simp
  have entries: "\<forall>e \<in> set es. well_formed (snd e) \<and> Suc (length st) + depth (snd e) \<le> max_depth cfg"
  proof
    fix e assume e: "e \<in> set es"
    with Dictionary.prems(1) have "well_formed (snd e)" by (simp add: list_all_iff)
    moreover from depth_entry [OF e] Dictionary.prems(3)
    have "Suc (length st) + depth (snd e) \<le> max_depth cfg" by simp
    ultimately show "well_formed (snd e) \<and> Suc (length st) + depth (snd e) \<le> max_depth cfg" ..
  qed
  have IH: "run cfg st' pos' (document (snd e) @ rest') =
              finish cfg (deliver (in_key_order (snd e)) st' 0 0) (pos' + length (document (snd e))) rest'"
    if "e \<in> set es" "well_formed (snd e)" "\<not> expects_key st'"
       "length st' + depth (snd e) \<le> max_depth cfg" for e st' pos' rest'
    using Dictionary.IH [of e "snd e" st' pos' rest'] that by (cases e) simp
  have inj: "inj_on fst (set (map entry_in_key_order es))"
    using keys by (auto simp: inj_on_def distinct_map)
  have sorted: "fold (insort_key fst) (map entry_in_key_order es) [] =
                  sort_key fst (map entry_in_key_order es)"
    using sort_key_conv_fold [OF inj] by simp
  have "run cfg st pos (document (Dictionary es) @ rest) =
          run cfg (DictFrame [] None # st) (pos + 1)
            (concat (map document_entry es) @ CHR ''e'' # rest)"
    using room Dictionary.prems(2) by (simp add: run_open_dict)
  also have "\<dots> = finish cfg
                 (deliver (Dictionary (fold (insort_key fst) (map entry_in_key_order es) [])) st 0 0)
                 (pos + 1 + length (concat (map document_entry es)) + 1) rest"
    by (rule run_document_entries) (use IH entries keys Dictionary.prems(2) in auto)
  finally show ?case by (simp add: sorted)
qed

section \<open>The nesting bound\<close>

lemma fold_max_cases: "fold max xs (a::nat) = a \<or> fold max xs a \<in> set xs"
proof -
  have "Max (set (a # xs)) \<in> set (a # xs)" by (rule Max_in) simp_all
  then show ?thesis by (simp add: Max.set_eq_fold [symmetric])
qed

lemma deep_item:
  assumes "max_depth cfg < length st + depth (List vs)" and "length st < max_depth cfg"
  shows "\<exists>v \<in> set vs. max_depth cfg < Suc (length st) + depth v"
  using fold_max_cases [of "map depth vs" 0] assms by auto

lemma deep_entry:
  assumes "max_depth cfg < length st + depth (Dictionary es)" and "length st < max_depth cfg"
  shows "\<exists>e \<in> set es. max_depth cfg < Suc (length st) + depth (snd e)"
proof -
  from fold_max_cases [of "map (\<lambda>e. depth (snd e)) es" 0] assms
  obtain e where "e \<in> set es" "fold max (map (\<lambda>e. depth (snd e)) es) 0 = depth (snd e)"
    by auto
  with assms(1) show ?thesis by (intro bexI [of _ e]) simp_all
qed

text \<open>
  In the document of a tree that does not fit under the maximum depth, the loop reaches
  an opening byte with \<open>max_depth\<close> frames on the stack; what follows that byte is not
  read.
\<close>

lemma too_deep_items:
  assumes IH: "\<And>v st pos. v \<in> set vs \<Longrightarrow> well_formed v \<Longrightarrow> \<not> expects_key st \<Longrightarrow>
                 length st \<le> max_depth cfg \<Longrightarrow> max_depth cfg < length st + depth v \<Longrightarrow>
                 \<exists>pre c. prefix (pre @ [c]) (document v) \<and> opener c \<and>
                   (\<forall>rest. run cfg st pos (pre @ c # rest) = Inl (StructureError (pos + length pre)))"
    and wf: "\<forall>v \<in> set vs. well_formed v"
    and deep: "\<exists>v \<in> set vs. max_depth cfg < Suc (length st) + depth v"
    and room: "length st < max_depth cfg"
    and st: "\<not> expects_key st"
  shows "\<exists>pre c. prefix (pre @ [c]) (concat (map document vs)) \<and> opener c \<and>
           (\<forall>rest. run cfg (ListFrame items # st) pos (pre @ c # rest) =
              Inl (StructureError (pos + length pre)))"
  using IH wf deep
proof (induction vs arbitrary: items pos)
  case Nil
  then show ?case by simp
next
  case (Cons v vs)
  show ?case
  proof (cases "max_depth cfg < Suc (length st) + depth v")
    case True
    have "\<exists>pre c. prefix (pre @ [c]) (document v) \<and> opener c \<and>
            (\<forall>rest. run cfg (ListFrame items # st) pos (pre @ c # rest) =
               Inl (StructureError (pos + length pre)))"
      by (rule Cons.prems(1)) (use Cons.prems(2) True room in simp_all)
    then obtain pre c where p: "prefix (pre @ [c]) (document v)" "opener c"
      "\<forall>rest. run cfg (ListFrame items # st) pos (pre @ c # rest) =
         Inl (StructureError (pos + length pre))" by blast
    from p(1) have "prefix (pre @ [c]) (concat (map document (v # vs)))"
      by (simp add: prefix_prefix)
    with p(2,3) show ?thesis by blast
  next
    case False
    have skip: "run cfg (ListFrame items # st) pos (document v @ s) =
            run cfg (ListFrame (items @ [in_key_order v]) # st) (pos + length (document v)) s" for s
    proof -
      have "run cfg (ListFrame items # st) pos (document v @ s) =
              finish cfg (deliver (in_key_order v) (ListFrame items # st) 0 0)
                (pos + length (document v)) s"
        by (rule run_document) (use Cons.prems(2) False in simp_all)
      then show ?thesis by (simp add: finish_Continue)
    qed
    have "\<exists>pre c. prefix (pre @ [c]) (concat (map document vs)) \<and> opener c \<and>
            (\<forall>rest. run cfg (ListFrame (items @ [in_key_order v]) # st) (pos + length (document v))
                       (pre @ c # rest) =
               Inl (StructureError (pos + length (document v) + length pre)))"
      by (rule Cons.IH) (use Cons.prems False in auto)
    then obtain pre c where p: "prefix (pre @ [c]) (concat (map document vs))" "opener c"
      "\<forall>rest. run cfg (ListFrame (items @ [in_key_order v]) # st) (pos + length (document v))
                       (pre @ c # rest) =
               Inl (StructureError (pos + length (document v) + length pre))" by blast
    from p(1) have "prefix ((document v @ pre) @ [c]) (concat (map document (v # vs)))"
      by simp
    moreover from p(3) skip
    have "\<forall>rest. run cfg (ListFrame items # st) pos ((document v @ pre) @ c # rest) =
            Inl (StructureError (pos + length (document v @ pre)))"
      by (simp add: add.assoc)
    ultimately show ?thesis using p(2) by blast
  qed
qed

lemma too_deep_entries:
  assumes IH: "\<And>e st pos. e \<in> set es \<Longrightarrow> well_formed (snd e) \<Longrightarrow> \<not> expects_key st \<Longrightarrow>
                 length st \<le> max_depth cfg \<Longrightarrow> max_depth cfg < length st + depth (snd e) \<Longrightarrow>
                 \<exists>pre c. prefix (pre @ [c]) (document (snd e)) \<and> opener c \<and>
                   (\<forall>rest. run cfg st pos (pre @ c # rest) = Inl (StructureError (pos + length pre)))"
    and wf: "\<forall>e \<in> set es. well_formed (snd e)"
    and deep: "\<exists>e \<in> set es. max_depth cfg < Suc (length st) + depth (snd e)"
    and keys: "distinct (map fst es)" "set (map fst es) \<inter> set (map fst acc) = {}"
    and room: "length st < max_depth cfg"
    and st: "\<not> expects_key st"
  shows "\<exists>pre c. prefix (pre @ [c]) (concat (map document_entry es)) \<and> opener c \<and>
           (\<forall>rest. run cfg (DictFrame acc None # st) pos (pre @ c # rest) =
              Inl (StructureError (pos + length pre)))"
  using IH wf deep keys
proof (induction es arbitrary: acc pos)
  case Nil
  then show ?case by simp
next
  case (Cons e es)
  obtain k v where e: "e = (k, v)" by (cases e)
  let ?kb = "encode (ByteString k)"
  let ?p = "pos + length ?kb"
  from Cons.prems(5) have fresh: "k \<notin> set (map fst acc)" by (auto simp: e)
  have key: "run cfg (DictFrame acc None # st) pos (?kb @ s) =
          run cfg (DictFrame acc (Some k) # st) ?p s" for s
    using fresh by (simp only: run_key if_False)
  show ?case
  proof (cases "max_depth cfg < Suc (length st) + depth v")
    case True
    have "\<exists>pre c. prefix (pre @ [c]) (document (snd e)) \<and> opener c \<and>
            (\<forall>rest. run cfg (DictFrame acc (Some k) # st) ?p (pre @ c # rest) =
               Inl (StructureError (?p + length pre)))"
      by (rule Cons.prems(1)) (use Cons.prems(2) True room in \<open>simp_all add: e\<close>)
    then obtain pre c where p: "prefix (pre @ [c]) (document v)" "opener c"
      "\<forall>rest. run cfg (DictFrame acc (Some k) # st) ?p (pre @ c # rest) =
         Inl (StructureError (?p + length pre))" by (auto simp: e)
    from p(1) have "prefix ((?kb @ pre) @ [c]) (concat (map document_entry (e # es)))"
      by (simp add: e prefix_prefix)
    moreover from p(3) key
    have "\<forall>rest. run cfg (DictFrame acc None # st) pos ((?kb @ pre) @ c # rest) =
            Inl (StructureError (pos + length (?kb @ pre)))"
      by (simp add: add.assoc)
    ultimately show ?thesis using p(2) by blast
  next
    case False
    let ?acc = "insort_key fst (k, in_key_order v) acc"
    have skip: "run cfg (DictFrame acc (Some k) # st) ?p (document v @ s) =
            run cfg (DictFrame ?acc None # st) (?p + length (document v)) s" for s
    proof -
      have "run cfg (DictFrame acc (Some k) # st) ?p (document v @ s) =
              finish cfg (deliver (in_key_order v) (DictFrame acc (Some k) # st) 0 0)
                (?p + length (document v)) s"
        by (rule run_document) (use Cons.prems(2) False in \<open>simp_all add: e\<close>)
      then show ?thesis by (simp add: finish_Continue)
    qed
    have "\<exists>pre c. prefix (pre @ [c]) (concat (map document_entry es)) \<and> opener c \<and>
            (\<forall>rest. run cfg (DictFrame ?acc None # st) (?p + length (document v)) (pre @ c # rest) =
               Inl (StructureError (?p + length (document v) + length pre)))"
    proof (rule Cons.IH)
      show "set (map fst es) \<inter> set (map fst ?acc) = {}"
        using Cons.prems(4,5) by (auto simp: e set_insort_key)
    qed (use Cons.prems False in \<open>auto simp: e\<close>)
    then obtain pre c where p: "prefix (pre @ [c]) (concat (map document_entry es))" "opener c"
      "\<forall>rest. run cfg (DictFrame ?acc None # st) (?p + length (document v)) (pre @ c # rest) =
               Inl (StructureError (?p + length (document v) + length pre))" by blast
    from p(1) have "prefix ((?kb @ document v @ pre) @ [c]) (concat (map document_entry (e # es)))"
      by (simp add: e)
    moreover from p(3) key skip
    have "\<forall>rest. run cfg (DictFrame acc None # st) pos ((?kb @ document v @ pre) @ c # rest) =
            Inl (StructureError (pos + length (?kb @ document v @ pre)))"
      by (simp add: add.assoc)
    ultimately show ?thesis using p(2) by blast
  qed
qed

lemma run_too_deep:
  "well_formed v \<Longrightarrow> \<not> expects_key st \<Longrightarrow> length st \<le> max_depth cfg \<Longrightarrow>
   max_depth cfg < length st + depth v \<Longrightarrow>
   \<exists>pre c. prefix (pre @ [c]) (document v) \<and> opener c \<and>
     (\<forall>rest. run cfg st pos (pre @ c # rest) = Inl (StructureError (pos + length pre)))"
proof (induction v arbitrary: st pos)
  case (Integer i)
  then show ?case by simp
next
  case (ByteString b)
  then show ?case by simp
next
  case (List vs)
  show ?case
  proof (cases "length st < max_depth cfg")
    case False
    with List.prems(2)
    have "\<forall>rest. run cfg st pos ([] @ CHR ''l'' # rest) = Inl (StructureError (pos + length ([] :: string)))"
      by (simp add: run_open_list)
    moreover have "prefix ([] @ [CHR ''l'']) (document (List vs))" by simp
    moreover have "opener CHR ''l''" by (simp add: opener_def)
    ultimately show ?thesis by blast
  next
    case True
    have wf: "\<forall>v \<in> set vs. well_formed v" using List.prems(1) by (simp add: list_all_iff)
    have "\<exists>pre c. prefix (pre @ [c]) (concat (map document vs)) \<and> opener c \<and>
           (\<forall>rest. run cfg (ListFrame [] # st) (pos + 1) (pre @ c # rest) =
              Inl (StructureError (pos + 1 + length pre)))"
      by (rule too_deep_items [OF _ wf deep_item [OF List.prems(4) True] True List.prems(2)])
         (rule List.IH)
    then obtain pre c where p: "prefix (pre @ [c]) (concat (map document vs))" "opener c"
      "\<forall>rest. run cfg (ListFrame [] # st) (pos + 1) (pre @ c # rest) =
              Inl (StructureError (pos + 1 + length pre))" by blast
    from p(1) have "prefix ((CHR ''l'' # pre) @ [c]) (document (List vs))"
      by (simp add: prefix_prefix)
    moreover from p(3) True List.prems(2)
    have "\<forall>rest. run cfg st pos ((CHR ''l'' # pre) @ c # rest) =
            Inl (StructureError (pos + length (CHR ''l'' # pre)))"
      by (simp add: run_open_list)
    ultimately show ?thesis using p(2) by blast
  qed
next
  case (Dictionary es)
  from Dictionary.prems(1) have keys: "distinct (map fst es)" by simp
  show ?case
  proof (cases "length st < max_depth cfg")
    case False
    with Dictionary.prems(2)
    have "\<forall>rest. run cfg st pos ([] @ CHR ''d'' # rest) = Inl (StructureError (pos + length ([] :: string)))"
      by (simp add: run_open_dict)
    moreover have "prefix ([] @ [CHR ''d'']) (document (Dictionary es))" by simp
    moreover have "opener CHR ''d''" by (simp add: opener_def)
    ultimately show ?thesis by blast
  next
    case True
    have wf: "\<forall>e \<in> set es. well_formed (snd e)" using Dictionary.prems(1) by (simp add: list_all_iff)
    have IH: "\<exists>pre c. prefix (pre @ [c]) (document (snd e)) \<and> opener c \<and>
                (\<forall>rest. run cfg st' pos' (pre @ c # rest) = Inl (StructureError (pos' + length pre)))"
      if "e \<in> set es" "well_formed (snd e)" "\<not> expects_key st'" "length st' \<le> max_depth cfg"
         "max_depth cfg < length st' + depth (snd e)" for e st' pos'
      using Dictionary.IH [of e "snd e" st' pos'] that by (cases e) simp
    have "\<exists>pre c. prefix (pre @ [c]) (concat (map document_entry es)) \<and> opener c \<and>
           (\<forall>rest. run cfg (DictFrame [] None # st) (pos + 1) (pre @ c # rest) =
              Inl (StructureError (pos + 1 + length pre)))"
      by (rule too_deep_entries [OF _ wf deep_entry [OF Dictionary.prems(4) True] keys _ True
            Dictionary.prems(2)])
         (use IH in auto)
    then obtain pre c where p: "prefix (pre @ [c]) (concat (map document_entry es))" "opener c"
      "\<forall>rest. run cfg (DictFrame [] None # st) (pos + 1) (pre @ c # rest) =
              Inl (StructureError (pos + 1 + length pre))" by blast
    from p(1) have "prefix ((CHR ''d'' # pre) @ [c]) (document (Dictionary es))"
      by (simp add: prefix_prefix)
    moreover from p(3) True Dictionary.prems(2)
    have "\<forall>rest. run cfg st pos ((CHR ''d'' # pre) @ c # rest) =
            Inl (StructureError (pos + length (CHR ''d'' # pre)))"
      by (simp add: run_open_dict)
    ultimately show ?thesis using p(2) by blast
  qed
qed

lemma deliver_stack:
  "deliver v st pos n = Continue st' m \<Longrightarrow> length st' = length st"
  by (cases "(v, st, pos, n)" rule: deliver.cases) auto

lemma set_key_length: "length (set_key k st) = length st"
  by (cases "(k, st)" rule: set_key.cases) auto

lemma step_stack_bound:
  assumes "length st \<le> max_depth cfg" and "step cfg st pos c cs = Continue st' n"
  shows "length st' \<le> max_depth cfg"
proof -
  from assms(2) consider
      (close) v st0 f where "st = f # st0" "deliver v st0 pos 0 = Continue st' n"
    | (key) k where "st' = set_key k st"
    | (val) v m where "deliver v st pos m = Continue st' n"
    | (push) f where "length st < max_depth cfg" "st' = f # st"
    unfolding step_def
    by (auto split: if_splits list.splits frame.splits option.splits sum.splits prod.splits)
  then show ?thesis
  proof cases
    case close
    with deliver_stack [OF close(2)] assms(1) show ?thesis by simp
  next
    case key
    with assms(1) show ?thesis by (simp add: set_key_length)
  next
    case val
    with deliver_stack [OF val] assms(1) show ?thesis by simp
  next
    case push
    then show ?thesis by simp
  qed
qed

section \<open>What the work stack holds\<close>

text \<open>
  A token takes at least as many bytes of the input as the value read from it counts
  units: the decimal number of a digit string is not longer than the string.
\<close>

lemma digit_value_less: "is_digit c \<Longrightarrow> digit_value c < 10"
  by (auto simp: is_digit_def digit_value_def less_eq_char_def)

lemma length_show_nat_decimal:
  "\<forall>c \<in> set ds. is_digit c \<Longrightarrow> ds \<noteq> [] \<Longrightarrow> length (show_nat (decimal_value ds)) \<le> length ds"
proof (induction ds rule: rev_induct)
  case Nil
  then show ?case by simp
next
  case (snoc c xs)
  from snoc.prems(1) have d: "digit_value c < 10" by (simp add: digit_value_less)
  let ?n = "10 * decimal_value xs + digit_value c"
  show ?case
  proof (cases "?n < 10")
    case True
    then show ?thesis by (subst show_nat.simps) (simp add: decimal_value_snoc)
  next
    case False
    with d have "xs \<noteq> []" by (auto simp: decimal_value_def)
    with snoc have "length (show_nat (decimal_value xs)) \<le> length xs" by simp
    moreover from d have "?n div 10 = decimal_value xs" by simp
    ultimately show ?thesis using False
      by (subst show_nat.simps) (simp add: decimal_value_snoc)
  qed
qed

lemma read_int_size:
  assumes "read_int pos cs = Inr (i, n)"
  shows "length (show_int i) < n"
proof -
  let ?neg = "prefix ''-'' cs"
  let ?sign = "if ?neg then 1 else 0 :: nat"
  let ?ds = "takeWhile is_digit (drop ?sign cs)"
  from assms have ne: "?ds \<noteq> []"
    by (auto simp: read_int_def Let_def split: if_splits list.splits)
  from assms have n: "n = ?sign + length ?ds + 1"
    by (auto simp: read_int_def Let_def split: if_splits list.splits)
  from assms have i: "i = (if ?neg then - int (decimal_value ?ds) else int (decimal_value ?ds))"
    by (auto simp: read_int_def Let_def split: if_splits list.splits)
  have "\<forall>c \<in> set ?ds. is_digit c" by (auto dest: set_takeWhileD)
  from length_show_nat_decimal [OF this ne]
  have "length (show_nat (decimal_value ?ds)) \<le> length ?ds" .
  then have "length (show_int i) \<le> ?sign + length ?ds"
    unfolding i show_int_def by (auto)
  with n show ?thesis by simp
qed

lemma read_bytes_size:
  assumes "read_bytes pos c cs = Inr (b, n)"
  shows "length b < n"
  using assms
  by (auto simp: read_bytes_def Let_def split: if_splits list.splits)

text \<open>A step adds to the stack no more than the bytes it reads.\<close>

lemma sum_insort_key:
  "sum_list (map f (insort_key g x xs)) = f x + sum_list (map f xs)"
  for f :: "'a \<Rightarrow> nat"
  by (induction xs) simp_all

lemma deliver_size:
  "deliver v st pos n = Continue st' m \<Longrightarrow> stack_size st' = stack_size st + value_size v \<and> m = n"
  by (cases "(v, st, pos, n)" rule: deliver.cases) (auto simp: stack_size_def sum_insort_key)

lemma set_key_size:
  "expects_key st \<Longrightarrow> stack_size (set_key k st) = stack_size st + 1 + length k"
  by (cases st rule: expects_key.cases) (simp_all add: stack_size_def)

lemma step_size:
  assumes "step cfg st pos c cs = Continue st' n"
  shows "stack_size st' \<le> stack_size st + 1 + n"
proof -
  from assms consider
      (close_list) items st0 where "st = ListFrame items # st0"
        "deliver (List items) st0 pos 0 = Continue st' n"
    | (close_dict) es st0 where "st = DictFrame es None # st0"
        "deliver (Dictionary es) st0 pos 0 = Continue st' n"
    | (key) k where "expects_key st" "st' = set_key k st" "read_bytes pos c cs = Inr (k, n)"
    | (int) i m where "read_int pos cs = Inr (i, m)" "deliver (Integer i) st pos m = Continue st' n"
    | (bytes) b m where "read_bytes pos c cs = Inr (b, m)"
        "deliver (ByteString b) st pos m = Continue st' n"
    | (push) f where "st' = f # st" "frame_size f = 1"
    unfolding step_def
    by (auto split: if_splits list.splits frame.splits option.splits sum.splits prod.splits)
  then show ?thesis
  proof cases
    case close_list
    with deliver_size [OF close_list(2)] show ?thesis by (simp add: stack_size_def)
  next
    case close_dict
    with deliver_size [OF close_dict(2)] show ?thesis by (simp add: stack_size_def)
  next
    case key
    with read_bytes_size [OF key(3)] show ?thesis by (simp add: set_key_size)
  next
    case int
    with deliver_size [OF int(2)] read_int_size [OF int(1)] show ?thesis by simp
  next
    case bytes
    with deliver_size [OF bytes(2)] read_bytes_size [OF bytes(1)] show ?thesis by simp
  next
    case push
    then show ?thesis by (simp add: stack_size_def)
  qed
qed

text \<open>Only an opening byte is refused with a \<open>StructureError\<close>, at its own offset.\<close>

lemma step_StructureError:
  assumes "step cfg st pos c cs = Failed (StructureError off)"
  shows "off = pos \<and> (c = CHR ''l'' \<or> c = CHR ''d'')"
proof -
  have i: "read_int pos cs \<noteq> Inl (StructureError off)"
    by (auto simp: read_int_def Let_def split: if_splits list.splits)
  have b: "read_bytes pos c cs \<noteq> Inl (StructureError off)"
    by (auto simp: read_bytes_def Let_def split: if_splits list.splits)
  have d: "deliver v st0 p n \<noteq> Failed (StructureError off)" for v st0 p n
    by (cases "(v, st0, p, n)" rule: deliver.cases) auto
  from assms i b d show ?thesis
    unfolding step_def
    by (auto split: if_splits list.splits frame.splits option.splits sum.splits prod.splits)
qed

text \<open>
  The bounds hold in every state of a run that starts within them, and no state of a run
  that ends in a \<open>StructureError\<close> lies beyond the offset of the error.  Every state of
  the trace is a state of the loop: from it the loop returns what the whole run returns.
\<close>

lemma trace_head: "(st, pos) \<in> set (trace cfg st pos s)"
  by (cases s) simp_all

lemma trace_bounds:
  "length st \<le> max_depth cfg \<Longrightarrow> stack_size st \<le> pos \<Longrightarrow>
   (st', p) \<in> set (trace cfg st pos s) \<Longrightarrow>
   length st' \<le> max_depth cfg \<and> stack_size st' \<le> p"
proof (induction cfg st pos s rule: trace.induct)
  case (1 cfg st pos)
  then show ?case by simp
next
  case (2 cfg st pos c cs)
  show ?case
  proof (cases "(st', p) = (st, pos)")
    case True
    with "2.prems" show ?thesis by simp
  next
    case False
    with "2.prems"(3) obtain st1 n where s: "step cfg st pos c cs = Continue st1 n"
      and m: "(st', p) \<in> set (trace cfg st1 (pos + 1 + n) (drop n cs))"
      by (cases "step cfg st pos c cs") auto
    from step_stack_bound [OF "2.prems"(1) s] have l: "length st1 \<le> max_depth cfg" .
    from step_size [OF s] "2.prems"(2) have z: "stack_size st1 \<le> pos + 1 + n" by simp
    from "2.IH" [OF s l z m] show ?thesis .
  qed
qed

lemma trace_offsets:
  "run cfg st pos s = Inl (StructureError off) \<Longrightarrow> \<forall>x \<in> set (trace cfg st pos s). snd x \<le> off"
proof (induction cfg st pos s rule: trace.induct)
  case (1 cfg st pos)
  then show ?case by simp
next
  case (2 cfg st pos c cs)
  show ?case
  proof (cases "step cfg st pos c cs")
    case (Failed e)
    with "2.prems" step_StructureError [of cfg st pos c cs off] show ?thesis
      by (simp add: run_Cons finish_def)
  next
    case (Finished v n)
    with "2.prems" show ?thesis by (simp add: run_Cons finish_def)
  next
    case (Continue st1 n)
    with "2.prems"(1) have r: "run cfg st1 (pos + 1 + n) (drop n cs) = Inl (StructureError off)"
      by (simp add: run_Cons finish_def)
    from "2.IH" [OF Continue r]
    have later: "\<forall>x \<in> set (trace cfg st1 (pos + 1 + n) (drop n cs)). snd x \<le> off" .
    with trace_head [of st1 "pos + 1 + n" cfg "drop n cs"] have "pos + 1 + n \<le> off" by fastforce
    with later Continue show ?thesis by simp
  qed
qed

lemma trace_run:
  "(st', p) \<in> set (trace cfg st pos s) \<Longrightarrow> \<exists>s'. suffix s' s \<and> run cfg st pos s = run cfg st' p s'"
proof (induction cfg st pos s rule: trace.induct)
  case (1 cfg st pos)
  then show ?case by auto
next
  case (2 cfg st pos c cs)
  show ?case
  proof (cases "(st', p) = (st, pos)")
    case True
    then show ?thesis by auto
  next
    case False
    with "2.prems" obtain st1 n where s: "step cfg st pos c cs = Continue st1 n"
      and m: "(st', p) \<in> set (trace cfg st1 (pos + 1 + n) (drop n cs))"
      by (cases "step cfg st pos c cs") auto
    from "2.IH" [OF s m] obtain s' where "suffix s' (drop n cs)"
      "run cfg st1 (pos + 1 + n) (drop n cs) = run cfg st' p s'" by blast
    moreover have "suffix (drop n cs) (c # cs)"
      by (meson suffix_drop suffix_ConsI)
    ultimately show ?thesis using s by (auto simp: run_Cons finish_def intro: suffix_order.trans)
  qed
qed

lemma key_ordered_well_formed: "key_ordered v \<Longrightarrow> well_formed v"
proof (induction v)
  case (List vs)
  then show ?case by (auto simp: list_all_iff)
next
  case (Dictionary es)
  from Dictionary.prems have "distinct (map fst es)"
    by (simp add: strict_sorted_iff)
  moreover have "well_formed (snd e)" if "e \<in> set es" for e
    using Dictionary.IH [of e "snd e"] Dictionary.prems that by (cases e) (auto simp: list_all_iff)
  ultimately show ?case by (simp add: list_all_iff)
qed simp_all

text \<open>
  C8.  Whatever the configured maximum depth, take a tree with unique keys whose nesting
  depth exceeds it, however deep, and the document of the tree, the keys of its
  dictionaries in any order.  The document has an opening byte \<open>l\<close> or \<open>d\<close>, at the
  offset \<open>length pre\<close>, at which the decoder refuses it: decoding the document returns a
  \<open>StructureError\<close> with that offset, and so does decoding every input that begins
  with the document up to and including that byte, whatever follows: the document
  itself, the document followed by more bytes, the document cut off anywhere after that
  byte.  The decoder is a total function, so it returns on every input.  In every state
  that the loop passes through on such an input, the work stack has at most
  \<open>max_depth\<close> frames, and what the stack holds, counted by \<^const>\<open>stack_size\<close>, is at
  most the number of bytes read before that state, which is at most the offset of the
  refused byte: neither bound depends on the depth of the tree or on the bytes after the
  refused one.  In particular, decoding what the encoder writes for the tree, followed by
  any bytes, returns a \<open>StructureError\<close>.
\<close>

theorem too_deep_is_StructureError:
  assumes "well_formed v" and "max_depth cfg < depth v"
  shows "(\<exists>pre c. prefix (pre @ [c]) (document v) \<and> opener c \<and>
            decode_all cfg (document v) = Inl (StructureError (length pre)) \<and>
            (\<forall>rest.
               decode_all cfg (pre @ c # rest) = Inl (StructureError (length pre)) \<and>
               (\<forall>x \<in> set (trace cfg [] 0 (pre @ c # rest)).
                  length (fst x) \<le> max_depth cfg \<and> stack_size (fst x) \<le> snd x \<and>
                  snd x \<le> length pre))) \<and>
         (\<exists>off. \<forall>rest. decode_all cfg (encode v @ rest) = Inl (StructureError off))"
proof
  from run_too_deep [of v "[]" cfg 0] assms
  obtain pre c where p: "prefix (pre @ [c]) (document v)" "opener c"
    and r: "\<And>rest. run cfg [] 0 (pre @ c # rest) = Inl (StructureError (length pre))"
    by auto
  have d: "decode_all cfg (pre @ c # rest) = Inl (StructureError (length pre))" for rest
    using r [of rest] by (simp add: decode_all_def decode_def)
  from p(1) obtain rest0 where "document v = pre @ c # rest0" by (auto simp: prefix_def)
  with d [of rest0] have whole: "decode_all cfg (document v) = Inl (StructureError (length pre))"
    by simp
  have "decode_all cfg (pre @ c # rest) = Inl (StructureError (length pre)) \<and>
        (\<forall>x \<in> set (trace cfg [] 0 (pre @ c # rest)).
           length (fst x) \<le> max_depth cfg \<and> stack_size (fst x) \<le> snd x \<and> snd x \<le> length pre)"
    for rest
  proof (intro conjI ballI)
    show "decode_all cfg (pre @ c # rest) = Inl (StructureError (length pre))" by (rule d)
  next
    fix x assume x: "x \<in> set (trace cfg [] 0 (pre @ c # rest))"
    obtain st p where xp: "x = (st, p)" by (cases x)
    from trace_bounds [of "[]" cfg 0 st p "pre @ c # rest"] x
    show "length (fst x) \<le> max_depth cfg" "stack_size (fst x) \<le> snd x"
      by (simp_all add: xp stack_size_def)
    from trace_offsets [OF r [of rest]] x show "snd x \<le> length pre" by blast
  qed
  with p whole show "\<exists>pre c. prefix (pre @ [c]) (document v) \<and> opener c \<and>
            decode_all cfg (document v) = Inl (StructureError (length pre)) \<and>
            (\<forall>rest.
               decode_all cfg (pre @ c # rest) = Inl (StructureError (length pre)) \<and>
               (\<forall>x \<in> set (trace cfg [] 0 (pre @ c # rest)).
                  length (fst x) \<le> max_depth cfg \<and> stack_size (fst x) \<le> snd x \<and>
                  snd x \<le> length pre))" by blast
next
  have wf: "well_formed (in_key_order v)"
    by (rule key_ordered_well_formed [OF key_ordered_in_key_order [OF assms(1)]])
  from run_too_deep [of "in_key_order v" "[]" cfg 0] wf assms(2)
  obtain pre c where p: "prefix (pre @ [c]) (encode v)"
    and r: "\<And>rest. run cfg [] 0 (pre @ c # rest) = Inl (StructureError (length pre))"
    by (auto simp: depth_in_key_order encode_document)
  from p obtain rest0 where e: "encode v = pre @ c # rest0" by (auto simp: prefix_def)
  have "decode_all cfg (encode v @ rest) = Inl (StructureError (length pre))" for rest
    using r [of "rest0 @ rest"] by (simp add: e decode_all_def decode_def)
  then show "\<exists>off. \<forall>rest. decode_all cfg (encode v @ rest) = Inl (StructureError off)" by blast
qed

text \<open>
  The theorem at a dictionary with its keys out of order and 65 nested lists, under the
  default maximum depth of 64: the document is refused at offset 73, and 65 times \<open>l\<close>
  with nothing after it at offset 64.
\<close>

theorem too_deep_is_StructureError_witness:
  "well_formed unsorted_deep_tree \<and>
   max_depth default_config < depth unsorted_deep_tree \<and>
   (\<exists>pre c. prefix (pre @ [c]) (document unsorted_deep_tree) \<and> opener c \<and>
      decode_all default_config (document unsorted_deep_tree) = Inl (StructureError (length pre)) \<and>
      (\<forall>rest.
         decode_all default_config (pre @ c # rest) = Inl (StructureError (length pre)) \<and>
         (\<forall>x \<in> set (trace default_config [] 0 (pre @ c # rest)).
            length (fst x) \<le> max_depth default_config \<and> stack_size (fst x) \<le> snd x \<and>
            snd x \<le> length pre))) \<and>
   (\<exists>off. \<forall>rest. decode_all default_config (encode unsorted_deep_tree @ rest) =
      Inl (StructureError off)) \<and>
   decode_all default_config (document unsorted_deep_tree) = Inl (StructureError 73) \<and>
   decode_all default_config (replicate 65 CHR ''l'') = Inl (StructureError 64)"
proof -
  have 1: "well_formed unsorted_deep_tree" by code_simp
  have 2: "max_depth default_config < depth unsorted_deep_tree" by code_simp
  have 3: "decode_all default_config (document unsorted_deep_tree) = Inl (StructureError 73)"
    by code_simp
  have 4: "decode_all default_config (replicate 65 CHR ''l'') = Inl (StructureError 64)"
    by code_simp
  from too_deep_is_StructureError [OF 1 2] 1 2 3 4 show ?thesis by blast
qed

end
